theory Spec2Isabelle
  imports Main "HOL-Library.Sublist" "HOL-Library.AList"
begin

section \<open>JavaScript values, results and strings\<close>

text \<open>
  The values that \<open>StyleBuilder.build\<close> walks over. A plain object is the list of its own
  enumerable properties in the order of \<open>Object.keys\<close>. An array is the list of its slots,
  \<open>None\<close> for a hole (an index below the length that is no property of the array), and
  the list of its own named properties, the keys that are no index, in the order of their
  creation. Numbers are integral: \<open>build\<close> only copies them, or uses them as an array
  length. A character is a code unit below 256. A caller's function is known by its index
  in a function table; \<open>Wrapped f\<close> is the arrow function that \<open>build\<close> creates around
  the callable \<open>f\<close>.
\<close>

datatype jsval =
    Undefined
  | Null
  | Bool bool
  | Num int
  | Str string
  | Arr "jsval option list" "(string \<times> jsval) list"
  | Obj "(string \<times> jsval) list"
  | Fn nat
  | Wrapped jsval

datatype error = TypeError | RangeError

text \<open>
  A call returns a value or throws. \<open>Unmodelled\<close> marks the few places where the
  behaviour of the engine lies outside the values above: a changed prototype, an own
  property \<open>map\<close>, \<open>toString\<close>, \<open>valueOf\<close> or \<open>join\<close> of the caller's value that the
  engine would consult in the place of the built-in method, and a numeral whose rounding
  to a double decides whether it is an array length.
\<close>

datatype 'a result = Returns 'a | Throws error | Unmodelled

fun and_then :: "'a result \<Rightarrow> ('a \<Rightarrow> 'b result) \<Rightarrow> 'b result" where
  "and_then (Returns x) f = f x"
| "and_then (Throws e) f = Throws e"
| "and_then Unmodelled f = Unmodelled"

text \<open>\<open>s.split(c)\<close> for a separator of one character: never empty, \<open>"".split(" ")\<close> is \<open>[""]\<close>.\<close>

fun split_on :: "char \<Rightarrow> string \<Rightarrow> string list" where
  "split_on c [] = [[]]"
| "split_on c (x # xs) =
     (if x = c then [] # split_on c xs
      else (x # hd (split_on c xs)) # tl (split_on c xs))"

text \<open>\<open>s.indexOf(u)\<close> on strings: the first position where \<open>u\<close> starts, or \<open>-1\<close>.\<close>

fun indexOf :: "string \<Rightarrow> string \<Rightarrow> int" where
  "indexOf [] u = (if u = [] then 0 else - 1)"
| "indexOf (c # s) u =
     (if prefix u (c # s) then 0
      else (let r = indexOf s u in if r < 0 then - 1 else r + 1))"

text \<open>\<open>xs.indexOf(x)\<close> on arrays of strings (strict equality).\<close>

fun array_indexOf :: "string list \<Rightarrow> string \<Rightarrow> int" where
  "array_indexOf [] x = - 1"
| "array_indexOf (y # ys) x =
     (if y = x then 0
      else (let r = array_indexOf ys x in if r < 0 then - 1 else r + 1))"

definition borderStyles :: "string list" where
  "borderStyles = [''none'', ''hidden'', ''dotted'', ''dashed'', ''solid'', ''double'',
                   ''groove'', ''ridge'', ''inset'', ''outset'']"

definition units :: "string list" where
  "units = [''px'', ''em'', ''pt'', ''%'']"

section \<open>Property keys and objects under construction\<close>

text \<open>
  \<open>index_key n\<close> is the property key of the array index \<open>n\<close> (its decimal numeral), and
  \<open>parse_index\<close> recognises the keys that are array indices: canonical numerals below
  \<open>2^32 - 1\<close>. \<open>Object.keys\<close> lists those first, in ascending order, and every other key
  after them in the order of creation.
\<close>

definition digit_char :: "nat \<Rightarrow> char" where
  "digit_char d = ''0123456789'' ! d"

fun index_key :: "nat \<Rightarrow> string" where
  "index_key n =
     (if n < 10 then [digit_char n] else index_key (n div 10) @ [digit_char (n mod 10)])"

declare index_key.simps [simp del]

definition is_digit :: "char \<Rightarrow> bool" where
  "is_digit c = (c \<in> set ''0123456789'')"

definition digit_of :: "char \<Rightarrow> int" where
  "digit_of c = int (length (takeWhile (\<lambda>d. d \<noteq> c) ''0123456789''))"

definition digits_value :: "string \<Rightarrow> int" where
  "digits_value s = foldl (\<lambda>a c. 10 * a + digit_of c) 0 s"

definition parse_index :: "string \<Rightarrow> nat option" where
  "parse_index s =
     (if s \<noteq> [] \<and> list_all is_digit s \<and> (s = ''0'' \<or> hd s \<noteq> CHR ''0'')
         \<and> digits_value s < 4294967295
      then Some (nat (digits_value s)) else None)"

fun insert_index :: "nat \<Rightarrow> string \<Rightarrow> 'a \<Rightarrow> (string \<times> 'a) list \<Rightarrow> (string \<times> 'a) list" where
  "insert_index i k v [] = [(k, v)]"
| "insert_index i k v ((k', v') # ps) =
     (case parse_index k' of
        Some j \<Rightarrow> if j \<le> i then (k', v') # insert_index i k v ps else (k, v) # (k', v') # ps
      | None \<Rightarrow> (k, v) # (k', v') # ps)"

text \<open>
  \<open>styles[k] = v\<close> on a plain object: an existing property keeps its place, a new index
  key goes before the first index key above it (or before the first other key), any other
  new key goes last.
\<close>

definition set_prop :: "(string \<times> 'a) list \<Rightarrow> string \<Rightarrow> 'a \<Rightarrow> (string \<times> 'a) list" where
  "set_prop ps k v =
     (if k \<in> fst ` set ps then AList.update k v ps
      else case parse_index k of
             None \<Rightarrow> ps @ [(k, v)]
           | Some i \<Rightarrow> insert_index i k v ps)"

text \<open>\<open>valueArr[i]\<close>: \<open>undefined\<close> beyond the end.\<close>

definition at :: "jsval list \<Rightarrow> nat \<Rightarrow> jsval" where
  "at xs i = (if i < length xs then xs ! i else Undefined)"

text \<open>A string seen as the sequence of its characters, as indexing and \<open>Object.keys\<close> see it.\<close>

definition chars :: "string \<Rightarrow> jsval list" where
  "chars s = map (\<lambda>c. Str [c]) s"

text \<open>\<open>p || ""\<close> for a parameter that is a string or was not passed.\<close>

definition or_empty :: "string option \<Rightarrow> string" where
  "or_empty p = (case p of None \<Rightarrow> [] | Some s \<Rightarrow> s)"

section \<open>The four-part exploder\<close>

definition explodeToFour :: "string \<Rightarrow> string list" where
  "explodeToFour value =
     (let fourPartArray = [0, 1, 2, 3 :: nat];
          valueArray = split_on CHR '' '' value
      in if length valueArray = 1 then map (\<lambda>_. valueArray ! 0) fourPartArray
         else if length valueArray = 2 then map (\<lambda>i. valueArray ! (i mod 2)) fourPartArray
         else if length valueArray = 3
           then map (\<lambda>i. valueArray ! (i mod 3 + i div 3)) fourPartArray
         else valueArray)"

section \<open>Sides and corners\<close>

definition applyFour :: "jsval list \<Rightarrow> string option \<Rightarrow> string option \<Rightarrow> (string \<times> jsval) list" where
  "applyFour valueArr pfx sfx =
     (let pfx = or_empty pfx;
          sfx = or_empty sfx;
          styles = [];
          styles = set_prop styles (pfx @ ''Top'' @ sfx) (at valueArr 0);
          styles = set_prop styles (pfx @ ''Right'' @ sfx) (at valueArr 1);
          styles = set_prop styles (pfx @ ''Bottom'' @ sfx) (at valueArr 2);
          styles = set_prop styles (pfx @ ''Left'' @ sfx) (at valueArr 3)
      in styles)"

definition applyFourCorner :: "jsval list \<Rightarrow> string option \<Rightarrow> string option \<Rightarrow> (string \<times> jsval) list" where
  "applyFourCorner valueArr pfx sfx =
     (let pfx = or_empty pfx;
          sfx = or_empty sfx;
          styles = [];
          styles = set_prop styles (pfx @ ''TopLeft'' @ sfx) (at valueArr 0);
          styles = set_prop styles (pfx @ ''TopRight'' @ sfx) (at valueArr 1);
          styles = set_prop styles (pfx @ ''BottomRight'' @ sfx) (at valueArr 2);
          styles = set_prop styles (pfx @ ''BottomLeft'' @ sfx) (at valueArr 3)
      in styles)"

section \<open>The unit normaliser\<close>

definition applyPX :: "string list \<Rightarrow> string list" where
  "applyPX values =
     map (\<lambda>v. if length (filter (\<lambda>u. indexOf v u > - 1) units) = 0 then v @ ''px'' else v)
       values"

section \<open>The shorthand expanders\<close>

definition margin :: "string \<Rightarrow> (string \<times> jsval) list" where
  "margin value = applyFour (map Str (explodeToFour value)) (Some ''margin'') None"

definition padding :: "string \<Rightarrow> (string \<times> jsval) list" where
  "padding value = applyFour (map Str (explodeToFour value)) (Some ''padding'') None"

text \<open>
  \<open>v + " " + partTwo[index]\<close>: an index beyond the end of \<open>partTwo\<close> reads \<open>undefined\<close>,
  which the concatenation prints.
\<close>

definition printed :: "string list \<Rightarrow> nat \<Rightarrow> string" where
  "printed xs i = (if i < length xs then xs ! i else ''undefined'')"

definition borderRadius :: "string \<Rightarrow> (string \<times> jsval) list" where
  "borderRadius value =
     (let partOne = explodeToFour (split_on CHR ''/'' value ! 0);
          partOne =
            (if indexOf value ''/'' > - 1
             then (let partTwo = explodeToFour (split_on CHR ''/'' value ! 1)
                   in map (\<lambda>(v, index). v @ '' '' @ printed partTwo index)
                        (zip partOne [0 ..< length partOne]))
             else partOne)
      in applyFourCorner (map Str partOne) (Some ''border'') (Some ''Radius''))"

definition borderStyle :: "string \<Rightarrow> (string \<times> jsval) list" where
  "borderStyle value = applyFour (map Str (explodeToFour value)) (Some ''border'') (Some ''Style'')"

definition borderColor :: "string \<Rightarrow> (string \<times> jsval) list" where
  "borderColor value = applyFour (map Str (explodeToFour value)) (Some ''border'') (Some ''Color'')"

definition borderWidth :: "string \<Rightarrow> (string \<times> jsval) list" where
  "borderWidth value = applyFour (map Str (explodeToFour value)) (Some ''border'') (Some ''Width'')"

text \<open>\<open>if (values[i])\<close>: the token exists and is not the empty string.\<close>

definition truthy_at :: "string list \<Rightarrow> nat \<Rightarrow> bool" where
  "truthy_at values i = (i < length values \<and> values ! i \<noteq> [])"

text \<open>
  \<open>side\<close> is the text that the template \<open>border${side}Width\<close> prints: the side's name,
  or \<open>undefined\<close> when no side was passed.
\<close>

definition borderSide :: "string \<Rightarrow> string \<Rightarrow> (string \<times> jsval) list" where
  "borderSide value side =
     (let styles = []
      in if array_indexOf borderStyles value > - 1
         then (let styles = set_prop styles (''border'' @ side @ ''Width'') (Str ''initial'');
                   styles = set_prop styles (''border'' @ side @ ''Style'') (Str value);
                   styles = set_prop styles (''border'' @ side @ ''Color'') (Str ''initial'')
               in styles)
         else (let values = split_on CHR '' '' value;
                   styles =
                     (if length values = 1
                      then (let styles = set_prop styles (''border'' @ side @ ''Width'') (Str (values ! 0));
                                styles = set_prop styles (''border'' @ side @ ''Style'') (Str ''initial'');
                                styles = set_prop styles (''border'' @ side @ ''Color'') (Str ''initial'')
                            in styles)
                      else styles);
                   styles = (if truthy_at values 0
                             then set_prop styles (''border'' @ side @ ''Width'') (Str (values ! 0))
                             else styles);
                   styles = (if truthy_at values 1
                             then set_prop styles (''border'' @ side @ ''Style'') (Str (values ! 1))
                             else styles);
                   styles = (if truthy_at values 2
                             then set_prop styles (''border'' @ side @ ''Color'') (Str (values ! 2))
                             else styles)
               in styles))"

definition borderLeft :: "string \<Rightarrow> (string \<times> jsval) list" where
  "borderLeft value = borderSide value ''Left''"

definition borderRight :: "string \<Rightarrow> (string \<times> jsval) list" where
  "borderRight value = borderSide value ''Right''"

definition borderTop :: "string \<Rightarrow> (string \<times> jsval) list" where
  "borderTop value = borderSide value ''Top''"

definition borderBottom :: "string \<Rightarrow> (string \<times> jsval) list" where
  "borderBottom value = borderSide value ''Bottom''"

section \<open>The length of an array\<close>

text \<open>
  \<open>array.length = v\<close> converts \<open>v\<close> to a number and takes it as the new length when it is
  an integer from \<open>0\<close> to \<open>2^32 - 1\<close>; any other number makes the assignment throw a
  RangeError. \<open>to_length v\<close> is that length, or \<open>None\<close> when the number is no length.

  A string is read as a numeric literal: white space around it is dropped, the empty
  string is \<open>0\<close>, then comes a binary, octal or hexadecimal integer, or a decimal numeral
  with an optional sign, fraction and exponent; any other text is not a number. A decimal
  numeral \<open>m * 10^e\<close> that is an integer is that integer. One that is no integer is rounded
  to a double, which moves it by less than its \<open>2^52\<close>th part unless it is below the
  normal doubles (then it may become zero): at that distance or more from the nearest
  integer it is no length, and nearer the outcome is left open.
\<close>

definition as_length :: "int \<Rightarrow> nat option" where
  "as_length n = (if 0 \<le> n \<and> n < 4294967296 then Some (nat n) else None)"

definition is_space :: "char \<Rightarrow> bool" where
  "is_space c = (c \<in> set [CHR 0x09, CHR 0x0A, CHR 0x0B, CHR 0x0C, CHR 0x0D, CHR 0x20, CHR 0xA0])"

definition trim_space :: "string \<Rightarrow> string" where
  "trim_space s = rev (dropWhile is_space (rev (dropWhile is_space s)))"

definition radix_digit :: "char \<Rightarrow> int" where
  "radix_digit c =
     int (min (length (takeWhile (\<lambda>d. d \<noteq> c) ''0123456789abcdef''))
              (length (takeWhile (\<lambda>d. d \<noteq> c) ''0123456789ABCDEF'')))"

definition radix_number :: "int \<Rightarrow> string \<Rightarrow> int option" where
  "radix_number b ds =
     (if ds \<noteq> [] \<and> list_all (\<lambda>c. radix_digit c < b) ds
      then Some (foldl (\<lambda>a c. b * a + radix_digit c) 0 ds) else None)"

definition radix_of :: "string \<Rightarrow> int option" where
  "radix_of t =
     (if length t < 2 \<or> hd t \<noteq> CHR ''0'' then None
      else if t ! 1 \<in> set ''xX'' then Some 16
      else if t ! 1 \<in> set ''oO'' then Some 8
      else if t ! 1 \<in> set ''bB'' then Some 2
      else None)"

definition signed_integer :: "string \<Rightarrow> int option" where
  "signed_integer s =
     (let ds = (if s \<noteq> [] \<and> hd s \<in> set ''+-'' then tl s else s)
      in if ds \<noteq> [] \<and> list_all is_digit ds
         then Some (if hd s = CHR ''-'' then - digits_value ds else digits_value ds)
         else None)"

text \<open>
  A decimal numeral as its sign, the number \<open>m\<close> that its digits spell without the point,
  and the power of ten to multiply it by. \<open>Infinity\<close> is no such numeral, and no length.
\<close>

definition decimal_number :: "string \<Rightarrow> (bool \<times> int \<times> int) option" where
  "decimal_number s =
     (let u = (if s \<noteq> [] \<and> hd s \<in> set ''+-'' then tl s else s);
          whole = takeWhile is_digit u;
          u = dropWhile is_digit u;
          point = (u \<noteq> [] \<and> hd u = CHR ''.'');
          fraction = (if point then takeWhile is_digit (tl u) else []);
          u = (if point then dropWhile is_digit (tl u) else u);
          exponent = (if u = [] then Some 0
                      else if hd u \<in> set ''eE'' then signed_integer (tl u)
                      else None)
      in if whole = [] \<and> fraction = [] then None
         else case exponent of
                None \<Rightarrow> None
              | Some e \<Rightarrow>
                  Some (s \<noteq> [] \<and> hd s = CHR ''-'', digits_value (whole @ fraction),
                        e - int (length fraction)))"

definition decimal_length :: "bool \<Rightarrow> int \<Rightarrow> int \<Rightarrow> nat option result" where
  "decimal_length negative m e =
     (if m = 0 then Returns (Some 0)
      else if 0 \<le> e then Returns (if negative then None else as_length (m * 10 ^ nat e))
      else (let d = 10 ^ nat (- e); q = m div d; f = m mod d
            in if f = 0 then Returns (if negative then None else as_length q)
               else if m * 2 ^ 1022 < d then Unmodelled
               else if negative \<or> 4294967296 \<le> q \<or> m \<le> 2 ^ 52 * min f (d - f)
                 then Returns None
               else Unmodelled))"

definition string_length :: "string \<Rightarrow> nat option result" where
  "string_length s =
     (let t = trim_space s
      in if t = [] then Returns (Some 0)
         else case radix_of t of
                Some b \<Rightarrow>
                  Returns (case radix_number b (drop 2 t) of
                             None \<Rightarrow> None
                           | Some n \<Rightarrow> as_length n)
              | None \<Rightarrow>
                  (case decimal_number t of
                     None \<Rightarrow> Returns None
                   | Some (negative, m, e) \<Rightarrow> decimal_length negative m e))"

text \<open>
  An object or an array is converted through its \<open>valueOf\<close> and \<open>toString\<close>. Unless the
  value has such a property of its own, these print a plain object as \<open>[object Object]\<close>, which is no
  number, and an array as its elements joined by commas, where a hole, \<open>undefined\<close> and
  \<open>null\<close> print as the empty string: an empty array is \<open>0\<close>, an array of one element is
  what the text of that element is, and a longer one is no number. The source text of a
  function is no number.
\<close>

definition brings :: "string list \<Rightarrow> (string \<times> jsval) list \<Rightarrow> bool" where
  "brings ks ps = (set ks \<inter> fst ` set ps \<noteq> {})"

fun printable :: "jsval \<Rightarrow> bool"
  and printable_elems :: "jsval option list \<Rightarrow> bool"
where
  "printable (Obj ps) = (\<not> brings [''toString'', ''valueOf''] ps)"
| "printable (Arr es qs) =
     (\<not> brings [''toString'', ''valueOf'', ''join''] qs \<and> printable_elems es)"
| "printable Undefined = True"
| "printable Null = True"
| "printable (Bool b) = True"
| "printable (Num n) = True"
| "printable (Str s) = True"
| "printable (Fn n) = True"
| "printable (Wrapped f) = True"
| "printable_elems [] = True"
| "printable_elems (None # es) = printable_elems es"
| "printable_elems (Some v # es) = (printable v \<and> printable_elems es)"

fun to_length :: "jsval \<Rightarrow> nat option result"
  and joined_length :: "jsval option list \<Rightarrow> nat option result"
where
  "to_length Undefined = Returns None"
| "to_length Null = Returns (Some 0)"
| "to_length (Bool b) = Returns (Some (if b then 1 else 0))"
| "to_length (Num n) = Returns (as_length n)"
| "to_length (Str s) = string_length s"
| "to_length (Arr es qs) = (if printable (Arr es qs) then joined_length es else Unmodelled)"
| "to_length (Obj ps) = (if printable (Obj ps) then Returns None else Unmodelled)"
| "to_length (Fn n) = Returns None"
| "to_length (Wrapped f) = Returns None"
| "joined_length [] = Returns (Some 0)"
| "joined_length [None] = Returns (Some 0)"
| "joined_length [Some v] =
     (case v of
        Undefined \<Rightarrow> Returns (Some 0)
      | Bool b \<Rightarrow> Returns None
      | _ \<Rightarrow> to_length v)"
| "joined_length (x # y # es) = Returns None"

section \<open>Assignment to the object under construction\<close>

text \<open>
  \<open>newStyles[k] = v\<close>. The key \<open>__proto__\<close> is the inherited accessor: a primitive is
  ignored, anything else would replace the prototype. On an array, an index stores an
  element, and the indices skipped between the old end and the new element are holes;
  \<open>length\<close> cuts the array or extends it by holes; any other key is a named property.
\<close>

fun is_primitive :: "jsval \<Rightarrow> bool" where
  "is_primitive Undefined = True"
| "is_primitive (Bool b) = True"
| "is_primitive (Num n) = True"
| "is_primitive (Str s) = True"
| "is_primitive v = False"

definition store_at :: "nat \<Rightarrow> 'a \<Rightarrow> 'a option list \<Rightarrow> 'a option list" where
  "store_at i v es =
     (if i < length es then es[i := Some v]
      else es @ replicate (i - length es) None @ [Some v])"

definition resize :: "nat \<Rightarrow> 'a option list \<Rightarrow> 'a option list" where
  "resize n es = (if n \<le> length es then take n es else es @ replicate (n - length es) None)"

fun put :: "jsval \<Rightarrow> string \<Rightarrow> jsval \<Rightarrow> jsval result" where
  "put (Obj ps) k v =
     (if k = ''__proto__'' then (if is_primitive v then Returns (Obj ps) else Unmodelled)
      else Returns (Obj (set_prop ps k v)))"
| "put (Arr es qs) k v =
     (if k = ''__proto__'' then (if is_primitive v then Returns (Arr es qs) else Unmodelled)
      else if k = ''length''
        then and_then (to_length v) (\<lambda>n.
               case n of
                 None \<Rightarrow> Throws RangeError
               | Some n \<Rightarrow> Returns (Arr (resize n es) qs))
      else case parse_index k of
             Some i \<Rightarrow> Returns (Arr (store_at i v es) qs)
           | None \<Rightarrow> Returns (Arr es (set_prop qs k v)))"
| "put t k v = Unmodelled"

text \<open>
  The own enumerable properties of a value, in the order of \<open>Object.keys\<close>: those of an
  object; the indices of an array that are no holes, then its named properties; the
  indices of a string; a function, a number, a boolean, \<open>null\<close> and \<open>undefined\<close> have none.
\<close>

definition indexed :: "jsval list \<Rightarrow> (string \<times> jsval) list" where
  "indexed xs = zip (map index_key [0 ..< length xs]) xs"

fun present_from :: "nat \<Rightarrow> jsval option list \<Rightarrow> (string \<times> jsval) list" where
  "present_from i [] = []"
| "present_from i (None # es) = present_from (Suc i) es"
| "present_from i (Some v # es) = (index_key i, v) # present_from (Suc i) es"

fun own_entries :: "jsval \<Rightarrow> (string \<times> jsval) list" where
  "own_entries (Obj ps) = ps"
| "own_entries (Arr es qs) = present_from 0 es @ qs"
| "own_entries (Str s) = indexed (chars s)"
| "own_entries v = []"

fun put_all :: "jsval \<Rightarrow> (string \<times> jsval) list \<Rightarrow> jsval result" where
  "put_all t [] = Returns t"
| "put_all t ((k, v) # es) = and_then (put t k v) (\<lambda>t'. put_all t' es)"

text \<open>\<open>Object.assign(target, source)\<close>.\<close>

definition assign :: "jsval \<Rightarrow> jsval \<Rightarrow> jsval result" where
  "assign target source = put_all target (own_entries source)"

definition border :: "string \<Rightarrow> jsval result" where
  "border value =
     and_then (assign (Obj []) (Obj (borderSide value ''Left''))) (\<lambda>t.
     and_then (assign t (Obj (borderSide value ''Right''))) (\<lambda>t.
     and_then (assign t (Obj (borderSide value ''Top''))) (\<lambda>t.
     assign t (Obj (borderSide value ''Bottom'')))))"

section \<open>Looking a key up on the builder\<close>

text \<open>An array literal: no holes and no named properties.\<close>

definition dense :: "jsval list \<Rightarrow> jsval" where
  "dense xs = Arr (map Some xs) []"

text \<open>
  \<open>build\<close> applied to a string: the string has a length, so the result is an array, and
  the keys of a string are its indices, none of which names a property of the builder.
\<close>

definition build_string :: "string \<Rightarrow> jsval result" where
  "build_string s = Returns (dense (chars s))"

text \<open>
  \<open>this[key](value)\<close> for a string \<open>value\<close>. The lookup finds every method of the class,
  the helpers and \<open>build\<close> among them, with one argument where the method declares more
  (the others are \<open>undefined\<close>); then the constructor, which cannot be called without
  \<open>new\<close>; then what every object inherits from \<open>Object.prototype\<close> in ECMAScript 2015.
  The builder has no own property, so \<open>valueOf\<close> hands back an object without own
  enumerable properties, and the three tests answer \<open>false\<close>. The two lookups find no
  accessor, or one without own enumerable properties: \<open>Object.assign\<close> copies nothing
  from either.
\<close>

definition members :: "(string \<times> (string \<Rightarrow> jsval result)) list" where
  "members =
     [(''_explodeToFour'', \<lambda>value. Returns (dense (map Str (explodeToFour value)))),
      (''_applyFour'', \<lambda>value. Returns (Obj (applyFour (chars value) None None))),
      (''_applyFourCorner'', \<lambda>value. Returns (Obj (applyFourCorner (chars value) None None))),
      (''applyPX'', \<lambda>value. Throws TypeError),
      (''margin'', \<lambda>value. Returns (Obj (margin value))),
      (''padding'', \<lambda>value. Returns (Obj (padding value))),
      (''borderRadius'', \<lambda>value. Returns (Obj (borderRadius value))),
      (''borderStyle'', \<lambda>value. Returns (Obj (borderStyle value))),
      (''borderColor'', \<lambda>value. Returns (Obj (borderColor value))),
      (''borderWidth'', \<lambda>value. Returns (Obj (borderWidth value))),
      (''borderSide'', \<lambda>value. Returns (Obj (borderSide value ''undefined''))),
      (''borderLeft'', \<lambda>value. Returns (Obj (borderLeft value))),
      (''borderRight'', \<lambda>value. Returns (Obj (borderRight value))),
      (''borderTop'', \<lambda>value. Returns (Obj (borderTop value))),
      (''borderBottom'', \<lambda>value. Returns (Obj (borderBottom value))),
      (''border'', border),
      (''build'', build_string),
      (''constructor'', \<lambda>value. Throws TypeError),
      (''hasOwnProperty'', \<lambda>value. Returns (Bool False)),
      (''isPrototypeOf'', \<lambda>value. Returns (Bool False)),
      (''propertyIsEnumerable'', \<lambda>value. Returns (Bool False)),
      (''toString'', \<lambda>value. Returns (Str ''[object Object]'')),
      (''toLocaleString'', \<lambda>value. Returns (Str ''[object Object]'')),
      (''valueOf'', \<lambda>value. Returns (Obj [])),
      (''__defineGetter__'', \<lambda>value. Throws TypeError),
      (''__defineSetter__'', \<lambda>value. Throws TypeError),
      (''__lookupGetter__'', \<lambda>value. Returns Undefined),
      (''__lookupSetter__'', \<lambda>value. Returns Undefined),
      (''__proto__'', \<lambda>value. Throws TypeError)]"

definition this_member :: "string \<Rightarrow> (string \<Rightarrow> jsval result) option" where
  "this_member key = map_of members key"

section \<open>The recursive walk\<close>

text \<open>\<open>value.length !== undefined\<close> on a plain object.\<close>

definition has_length :: "(string \<times> jsval) list \<Rightarrow> bool" where
  "has_length ps = (case map_of ps ''length'' of None \<Rightarrow> False | Some v \<Rightarrow> v \<noteq> Undefined)"

text \<open>
  \<open>value.map\<close> when the value has an own property \<open>map\<close>: that property is called. A
  plain object that has a length has no other \<open>map\<close>.
\<close>

definition object_map :: "(string \<times> jsval) list \<Rightarrow> jsval result" where
  "object_map ps =
     (case map_of ps ''map'' of
        Some (Fn n) \<Rightarrow> Unmodelled
      | Some (Wrapped f) \<Rightarrow> Unmodelled
      | _ \<Rightarrow> Throws TypeError)"

text \<open>
  \<open>build\<close> is the method, and \<open>build_props newStyles ps\<close> is its loop over the keys \<open>ps\<close>
  that are still to come. On an array the loop meets the indices first, where
  \<open>this[key]\<close> finds nothing: \<open>build_elems\<close> is that part of the loop (lemma
  \<open>build_array_is_loop\<close> below derives it from the loop). A hole is no key,
  so the loop skips it; storing at a later index leaves the hole in the result, and the
  holes after the last element are not in the result at all. The named properties of the
  array come after the indices. \<open>stored value\<close> is what the body assigns to
  \<open>newStyles[key]\<close> in every branch but the one that calls an expander, and \<open>build_each\<close>
  is \<open>value.map(v => this.build(v))\<close>, which skips the holes and keeps them, and copies
  no named property. Reading \<open>.length\<close> of \<open>undefined\<close> or \<open>null\<close> throws. A number or a
  boolean has no length and, in ECMAScript 2015, \<open>Object.keys\<close> lists no key of it: the
  result is the empty object. A function has a length and no enumerable key: the result
  is the empty array.
\<close>

fun build :: "jsval \<Rightarrow> jsval result"
  and build_each :: "jsval option list \<Rightarrow> jsval option list result"
  and stored :: "jsval \<Rightarrow> jsval result"
  and build_elems :: "jsval option list \<Rightarrow> jsval option list result"
  and build_props :: "jsval \<Rightarrow> (string \<times> jsval) list \<Rightarrow> jsval result"
where
  "build Undefined = Throws TypeError"
| "build Null = Throws TypeError"
| "build (Bool b) = Returns (Obj [])"
| "build (Num n) = Returns (Obj [])"
| "build (Str s) = build_string s"
| "build (Arr es qs) = and_then (build_elems es) (\<lambda>ys. build_props (Arr ys []) qs)"
| "build (Obj ps) = build_props (if has_length ps then Arr [] [] else Obj []) ps"
| "build (Fn n) = Returns (Arr [] [])"
| "build (Wrapped f) = Returns (Arr [] [])"
| "build_each [] = Returns []"
| "build_each (None # vs) = and_then (build_each vs) (\<lambda>ws. Returns (None # ws))"
| "build_each (Some v # vs) =
     and_then (build v) (\<lambda>w. and_then (build_each vs) (\<lambda>ws. Returns (Some w # ws)))"
| "stored (Str s) = Returns (Str s)"
| "stored Null = Throws TypeError"
| "stored (Arr vs qs) =
     (if map_of qs ''map'' = None then and_then (build_each vs) (\<lambda>ws. Returns (Arr ws []))
      else object_map qs)"
| "stored (Obj ps) = (if has_length ps then object_map ps else build_props (Obj []) ps)"
| "stored (Fn n) = Returns (Wrapped (Fn n))"
| "stored (Wrapped f) = Returns (Wrapped (Wrapped f))"
| "stored Undefined = Returns Undefined"
| "stored (Bool b) = Returns (Bool b)"
| "stored (Num n) = Returns (Num n)"
| "build_elems [] = Returns []"
| "build_elems (None # vs) =
     and_then (build_elems vs) (\<lambda>ws. Returns (if ws = [] then [] else None # ws))"
| "build_elems (Some v # vs) =
     and_then (stored v) (\<lambda>w. and_then (build_elems vs) (\<lambda>ws. Returns (Some w # ws)))"
| "build_props newStyles [] = Returns newStyles"
| "build_props newStyles ((key, value) # ps) =
     and_then
       (case value of
          Str s \<Rightarrow>
            (case this_member key of
               Some method \<Rightarrow> and_then (method s) (assign newStyles)
             | None \<Rightarrow> put newStyles key value)
        | _ \<Rightarrow> and_then (stored value) (put newStyles key))
       (\<lambda>newStyles'. build_props newStyles' ps)"

section \<open>Calling a function value\<close>

text \<open>
  \<open>env\<close> is the table of the caller's functions. The arrow function made by \<open>build\<close>
  passes its arguments to the callable it closes over and builds what comes back.
\<close>

fun call :: "(nat \<Rightarrow> jsval list \<Rightarrow> jsval result) \<Rightarrow> jsval \<Rightarrow> jsval list \<Rightarrow> jsval result" where
  "call env (Fn n) args = env n args"
| "call env (Wrapped f) args = and_then (call env f args) build"
| "call env v args = Throws TypeError"

section \<open>Predicates of the statements\<close>


text \<open>
  A flat style mapping: every value is a string, and no key is \<open>length\<close> or one of the
  five properties of the builder whose call throws.
\<close>

definition flat_style :: "(string \<times> jsval) list \<Rightarrow> bool" where
  "flat_style ps =
     list_all (\<lambda>(k, v). (case v of Str s \<Rightarrow> True | _ \<Rightarrow> False) \<and>
        k \<notin> set [''applyPX'', ''constructor'', ''__defineGetter__'', ''__defineSetter__'',
                    ''__proto__'', ''length'']) ps"

text \<open>The slots of an array without the holes at its end.\<close>

fun strip :: "'a option list \<Rightarrow> 'a option list" where
  "strip [] = []"
| "strip (None # es) = (if strip es = [] then [] else None # strip es)"
| "strip (Some v # es) = Some v # strip es"

text \<open>
  The order in which an object lists its keys: index keys first, ascending, then the
  others. A value is well formed when every object in it has distinct keys in that order
  and every array has distinct named properties, none of which is an index or
  \<open>length\<close>, as every object and every array of the engine has.
\<close>

definition key_le :: "string \<Rightarrow> string \<Rightarrow> bool" where
  "key_le k k' =
     (case parse_index k of
        None \<Rightarrow> parse_index k' = None
      | Some i \<Rightarrow> (case parse_index k' of None \<Rightarrow> True | Some j \<Rightarrow> i \<le> j))"

definition key_order :: "string list \<Rightarrow> bool" where
  "key_order ks = sorted_wrt key_le ks"

definition named_keys :: "string list \<Rightarrow> bool" where
  "named_keys ks = (distinct ks \<and> list_all (\<lambda>k. parse_index k = None \<and> k \<noteq> ''length'') ks)"

fun wellformed :: "jsval \<Rightarrow> bool"
  and wellformed_elems :: "jsval option list \<Rightarrow> bool"
  and wellformed_props :: "(string \<times> jsval) list \<Rightarrow> bool"
where
  "wellformed (Obj ps) =
     (distinct (map fst ps) \<and> key_order (map fst ps) \<and> wellformed_props ps)"
| "wellformed (Arr es qs) = (wellformed_elems es \<and> named_keys (map fst qs) \<and> wellformed_props qs)"
| "wellformed (Wrapped f) = wellformed f"
| "wellformed Undefined = True"
| "wellformed Null = True"
| "wellformed (Bool b) = True"
| "wellformed (Num n) = True"
| "wellformed (Str s) = True"
| "wellformed (Fn n) = True"
| "wellformed_elems [] = True"
| "wellformed_elems (None # es) = wellformed_elems es"
| "wellformed_elems (Some v # es) = (wellformed v \<and> wellformed_elems es)"
| "wellformed_props [] = True"
| "wellformed_props ((k, v) # ps) = (wellformed v \<and> wellformed_props ps)"

text \<open>A value that holds no function, at any depth.\<close>

fun callable_free :: "jsval \<Rightarrow> bool"
  and callable_free_elems :: "jsval option list \<Rightarrow> bool"
  and callable_free_props :: "(string \<times> jsval) list \<Rightarrow> bool"
where
  "callable_free (Obj ps) = callable_free_props ps"
| "callable_free (Arr es qs) = (callable_free_elems es \<and> callable_free_props qs)"
| "callable_free (Fn n) = False"
| "callable_free (Wrapped f) = False"
| "callable_free Undefined = True"
| "callable_free Null = True"
| "callable_free (Bool b) = True"
| "callable_free (Num n) = True"
| "callable_free (Str s) = True"
| "callable_free_elems [] = True"
| "callable_free_elems (None # es) = callable_free_elems es"
| "callable_free_elems (Some v # es) = (callable_free v \<and> callable_free_elems es)"
| "callable_free_props [] = True"
| "callable_free_props ((k, v) # ps) = (callable_free v \<and> callable_free_props ps)"


text \<open>
  A value in which no key \<open>__proto__\<close> holds an object or an array: building it leaves
  every prototype as it is.
\<close>

fun is_object :: "jsval \<Rightarrow> bool" where
  "is_object (Obj ps) = True"
| "is_object (Arr es qs) = True"
| "is_object v = False"

fun proto_safe :: "jsval \<Rightarrow> bool"
  and proto_safe_elems :: "jsval option list \<Rightarrow> bool"
  and proto_safe_props :: "(string \<times> jsval) list \<Rightarrow> bool"
where
  "proto_safe (Obj ps) = proto_safe_props ps"
| "proto_safe (Arr es qs) = (proto_safe_elems es \<and> proto_safe_props qs)"
| "proto_safe (Wrapped f) = proto_safe f"
| "proto_safe Undefined = True"
| "proto_safe Null = True"
| "proto_safe (Bool b) = True"
| "proto_safe (Num n) = True"
| "proto_safe (Str s) = True"
| "proto_safe (Fn n) = True"
| "proto_safe_elems [] = True"
| "proto_safe_elems (None # es) = proto_safe_elems es"
| "proto_safe_elems (Some v # es) = (proto_safe v \<and> proto_safe_elems es)"
| "proto_safe_props [] = True"
| "proto_safe_props ((k, v) # ps) =
     (\<not> (k = ''__proto__'' \<and> is_object v) \<and> proto_safe v \<and> proto_safe_props ps)"

text \<open>A value in which no mapping has a \<open>length\<close> property (other than an undefined one).\<close>

fun lengthless :: "jsval \<Rightarrow> bool"
  and lengthless_elems :: "jsval option list \<Rightarrow> bool"
  and lengthless_props :: "(string \<times> jsval) list \<Rightarrow> bool"
where
  "lengthless (Obj ps) = (\<not> has_length ps \<and> lengthless_props ps)"
| "lengthless (Arr es qs) = (lengthless_elems es \<and> lengthless_props qs)"
| "lengthless (Wrapped f) = lengthless f"
| "lengthless Undefined = True"
| "lengthless Null = True"
| "lengthless (Bool b) = True"
| "lengthless (Num n) = True"
| "lengthless (Str s) = True"
| "lengthless (Fn n) = True"
| "lengthless_elems [] = True"
| "lengthless_elems (None # es) = lengthless_elems es"
| "lengthless_elems (Some v # es) = (lengthless v \<and> lengthless_elems es)"
| "lengthless_props [] = True"
| "lengthless_props ((k, v) # ps) = (lengthless v \<and> lengthless_props ps)"

text \<open>
  An expanded value is one that \<open>build\<close> has nothing to do on, and a copied value one
  that the loop body stores as it is. A mapping is both when it has no \<open>length\<close> and no
  key \<open>__proto__\<close>, its strings sit under keys that name no property of the builder, and
  its other values are copied. A number, a boolean, a string and \<open>undefined\<close> are copied.
  An array is expanded when it does not end in a hole and its elements and named
  properties are copied; it is copied when it has no named property and its elements are
  expanded.
\<close>

fun expanded :: "jsval \<Rightarrow> bool"
  and copied :: "jsval \<Rightarrow> bool"
  and expanded_elems :: "jsval option list \<Rightarrow> bool"
  and copied_elems :: "jsval option list \<Rightarrow> bool"
  and copied_props :: "(string \<times> jsval) list \<Rightarrow> bool"
where
  "expanded (Obj ps) = (\<not> has_length ps \<and> copied_props ps)"
| "expanded (Arr es qs) = (strip es = es \<and> copied_elems es \<and> copied_props qs)"
| "expanded Undefined = False"
| "expanded Null = False"
| "expanded (Bool b) = False"
| "expanded (Num n) = False"
| "expanded (Str s) = False"
| "expanded (Fn n) = False"
| "expanded (Wrapped f) = False"
| "copied (Obj ps) = (\<not> has_length ps \<and> copied_props ps)"
| "copied (Arr es qs) = (qs = [] \<and> expanded_elems es)"
| "copied Undefined = True"
| "copied Null = False"
| "copied (Bool b) = True"
| "copied (Num n) = True"
| "copied (Str s) = True"
| "copied (Fn n) = False"
| "copied (Wrapped f) = False"
| "expanded_elems [] = True"
| "expanded_elems (None # es) = expanded_elems es"
| "expanded_elems (Some v # es) = (expanded v \<and> expanded_elems es)"
| "copied_elems [] = True"
| "copied_elems (None # es) = copied_elems es"
| "copied_elems (Some v # es) = (copied v \<and> copied_elems es)"
| "copied_props [] = True"
| "copied_props ((k, v) # ps) =
     (k \<noteq> ''__proto__'' \<and> (case v of Str s \<Rightarrow> this_member k = None | _ \<Rightarrow> copied v)
      \<and> copied_props ps)"

text \<open>
  A value without the holes at the end of the arrays that \<open>build\<close> walks over:
  \<open>trim_built\<close> for a value given to \<open>build\<close>, \<open>trim_stored\<close> for a value under a key or
  at an index, where \<open>build\<close> walks over the elements of an array and not over the array.
\<close>

fun trim_built :: "jsval \<Rightarrow> jsval"
  and trim_stored :: "jsval \<Rightarrow> jsval"
  and trim_built_elems :: "jsval option list \<Rightarrow> jsval option list"
  and trim_stored_elems :: "jsval option list \<Rightarrow> jsval option list"
  and trim_props :: "(string \<times> jsval) list \<Rightarrow> (string \<times> jsval) list"
where
  "trim_built (Obj ps) = Obj (trim_props ps)"
| "trim_built (Arr es qs) = Arr (strip (trim_stored_elems es)) (trim_props qs)"
| "trim_built Undefined = Undefined"
| "trim_built Null = Null"
| "trim_built (Bool b) = Bool b"
| "trim_built (Num n) = Num n"
| "trim_built (Str s) = Str s"
| "trim_built (Fn n) = Fn n"
| "trim_built (Wrapped f) = Wrapped f"
| "trim_stored (Obj ps) = Obj (trim_props ps)"
| "trim_stored (Arr es qs) = Arr (trim_built_elems es) (trim_props qs)"
| "trim_stored Undefined = Undefined"
| "trim_stored Null = Null"
| "trim_stored (Bool b) = Bool b"
| "trim_stored (Num n) = Num n"
| "trim_stored (Str s) = Str s"
| "trim_stored (Fn n) = Fn n"
| "trim_stored (Wrapped f) = Wrapped f"
| "trim_built_elems [] = []"
| "trim_built_elems (None # es) = None # trim_built_elems es"
| "trim_built_elems (Some v # es) = Some (trim_built v) # trim_built_elems es"
| "trim_stored_elems [] = []"
| "trim_stored_elems (None # es) = None # trim_stored_elems es"
| "trim_stored_elems (Some v # es) = Some (trim_stored v) # trim_stored_elems es"
| "trim_props [] = []"
| "trim_props ((k, v) # ps) = (k, trim_stored v) # trim_props ps"

section \<open>Invariants of the proofs\<close>

text \<open>
  What an expander hands to \<open>Object.assign\<close>: keys that name no property of the builder
  and are not \<open>length\<close>, values that are strings or \<open>undefined\<close>.
\<close>

definition plain_entry :: "string \<times> jsval \<Rightarrow> bool" where
  "plain_entry e =
     (this_member (fst e) = None \<and> fst e \<noteq> ''length'' \<and>
      (snd e = Undefined \<or> (\<exists>t. snd e = Str t)))"

text \<open>
  A value that the loop body stores as it is but for the trailing holes inside, and the
  objects and arrays under construction all of whose entries are of that kind.
\<close>

definition settled :: "jsval \<Rightarrow> bool" where
  "settled v = (stored v = Returns (trim_stored v))"

definition settled_slot :: "jsval option \<Rightarrow> bool" where
  "settled_slot x = (case x of None \<Rightarrow> True | Some v \<Rightarrow> settled v)"

definition good_entry :: "string \<times> jsval \<Rightarrow> bool" where
  "good_entry e =
     (fst e \<noteq> ''__proto__'' \<and> settled (snd e) \<and> (\<forall>s. snd e = Str s \<longrightarrow> this_member (fst e) = None))"

fun good :: "jsval \<Rightarrow> bool" where
  "good (Obj acc) =
     (distinct (map fst acc) \<and> key_order (map fst acc) \<and> \<not> has_length acc \<and> list_all good_entry acc)"
| "good (Arr es qs) =
     (list_all settled_slot es \<and> named_keys (map fst qs) \<and> list_all good_entry qs)"
| "good v = False"

text \<open>
  The named keys of an object or an array under construction, and an entry that the loop
  body stores under its own key: its key is not \<open>__proto__\<close>, and if it holds a string
  its key names no property of the builder.
\<close>

fun named_of :: "jsval \<Rightarrow> string set" where
  "named_of (Obj ps) = fst ` set ps"
| "named_of (Arr es qs) = fst ` set qs"
| "named_of v = {}"

definition put_entry :: "string \<times> jsval \<Rightarrow> bool" where
  "put_entry e = (fst e \<noteq> ''__proto__'' \<and> (\<forall>s. snd e = Str s \<longrightarrow> this_member (fst e) = None))"

text \<open>A value that \<open>build\<close> returns as it is but for the trailing holes.\<close>

definition rebuilt :: "jsval \<Rightarrow> bool" where
  "rebuilt r = (build r = Returns (trim_built r))"

definition rebuilt_slot :: "jsval option \<Rightarrow> bool" where
  "rebuilt_slot x = (case x of None \<Rightarrow> True | Some r \<Rightarrow> rebuilt r)"

section \<open>Properties\<close>

lemma split_on_nonempty: "split_on c s \<noteq> []"
  by (induction s) auto

lemma length_split_on_pos: "0 < length (split_on c s)"
  using split_on_nonempty [of c s] by simp

text \<open>
  C1. \<open>_explodeToFour\<close> splits its argument on spaces and returns, for one token
  \<open>[v, v, v, v]\<close>, for two \<open>[a, b, a, b]\<close>, for three \<open>[a, b, c, b]\<close>, for four the tokens
  as they are, and for more than four the token array unchanged. It is a total function:
  no input makes it throw.
\<close>

theorem explodeToFour_cases:
  "(let ts = split_on CHR '' '' value in
      (\<forall>v. ts = [v] \<longrightarrow> explodeToFour value = [v, v, v, v]) \<and>
      (\<forall>a b. ts = [a, b] \<longrightarrow> explodeToFour value = [a, b, a, b]) \<and>
      (\<forall>a b c. ts = [a, b, c] \<longrightarrow> explodeToFour value = [a, b, c, b]) \<and>
      (\<forall>a b c d. ts = [a, b, c, d] \<longrightarrow> explodeToFour value = [a, b, c, d]) \<and>
      (4 < length ts \<longrightarrow> explodeToFour value = ts) \<and>
      ts \<noteq> [])"
  by (simp add: explodeToFour_def Let_def split_on_nonempty)

theorem explodeToFour_cases_witness:
  "explodeToFour ''1px'' = [''1px'', ''1px'', ''1px'', ''1px''] \<and>
   explodeToFour ''1px 2px'' = [''1px'', ''2px'', ''1px'', ''2px''] \<and>
   explodeToFour ''1px 2px 3px'' = [''1px'', ''2px'', ''3px'', ''2px''] \<and>
   explodeToFour ''1px 2px 3px 4px'' = [''1px'', ''2px'', ''3px'', ''4px''] \<and>
   explodeToFour ''1 2 3 4 5'' = [''1'', ''2'', ''3'', ''4'', ''5'']"
  using explodeToFour_cases [of "''1px''"] explodeToFour_cases [of "''1px 2px''"]
    explodeToFour_cases [of "''1px 2px 3px''"] explodeToFour_cases [of "''1px 2px 3px 4px''"]
    explodeToFour_cases [of "''1 2 3 4 5''"]
  by (simp add: Let_def)

subsection \<open>Strings, keys and the helpers\<close>

lemma split_on_none: "c \<notin> set s \<Longrightarrow> split_on c s = [s]"
  by (induction s) auto

lemma split_on_at: "c \<notin> set h \<Longrightarrow> split_on c (h @ c # t) = h # split_on c t"
  by (induction h) auto

lemma array_indexOf_mem: "(array_indexOf xs x > - 1) = (x \<in> set xs)"
  by (induction xs) (auto simp: Let_def)

lemma array_indexOf_ge: "- 1 \<le> array_indexOf xs x"
  by (induction xs) (auto simp: Let_def)

lemma indexOf_ge: "- 1 \<le> indexOf s u"
  by (induction s) (auto simp: Let_def)

lemma indexOf_sublist: "(indexOf s u > - 1) = sublist u s"
proof (induction s)
  case Nil
  then show ?case by simp
next
  case (Cons c s)
  have "sublist u (c # s) = (prefix u (c # s) \<or> sublist u s)"
    by (simp add: sublist_Cons_right)
  with Cons indexOf_ge [of s u] show ?case
    by (auto simp: Let_def)
qed

lemma parse_index_nondigit: "\<exists>c\<in>set k. \<not> is_digit c \<Longrightarrow> parse_index k = None"
  by (auto simp: parse_index_def list_all_iff)

lemma update_fresh: "k \<notin> fst ` set ps \<Longrightarrow> AList.update k v ps = ps @ [(k, v)]"
  by (induction ps) auto

lemma set_prop_named: "parse_index k = None \<Longrightarrow> set_prop ps k v = AList.update k v ps"
  by (simp add: set_prop_def update_fresh)

lemma set_prop_empty: "set_prop [] k v = [(k, v)]"
  by (simp add: set_prop_def split: option.splits)

lemma named_T [simp]: "parse_index (p @ CHR ''T'' # s) = None"
  and named_R [simp]: "parse_index (p @ CHR ''R'' # s) = None"
  and named_B [simp]: "parse_index (p @ CHR ''B'' # s) = None"
  and named_L [simp]: "parse_index (p @ CHR ''L'' # s) = None"
  and named_b [simp]: "parse_index (CHR ''b'' # s) = None"
  by (rule parse_index_nondigit, simp add: is_digit_def)+

lemma applyFour_entries:
  "applyFour xs p s =
     [(or_empty p @ ''Top'' @ or_empty s, at xs 0), (or_empty p @ ''Right'' @ or_empty s, at xs 1),
      (or_empty p @ ''Bottom'' @ or_empty s, at xs 2), (or_empty p @ ''Left'' @ or_empty s, at xs 3)]"
  by (simp add: applyFour_def Let_def set_prop_named)

lemma applyFourCorner_entries:
  "applyFourCorner xs p s =
     [(or_empty p @ ''TopLeft'' @ or_empty s, at xs 0), (or_empty p @ ''TopRight'' @ or_empty s, at xs 1),
      (or_empty p @ ''BottomRight'' @ or_empty s, at xs 2), (or_empty p @ ''BottomLeft'' @ or_empty s, at xs 3)]"
  by (simp add: applyFourCorner_def Let_def set_prop_named)

lemma four_indices:
  assumes "4 \<le> length xs"
  shows "xs \<noteq> []" "Suc 0 < length xs" "2 < length xs" "3 < length xs"
  using assms by auto

lemma explodeToFour_length: "4 \<le> length (explodeToFour x)"
proof -
  define ts where "ts = split_on CHR '' '' x"
  have "0 < length ts" unfolding ts_def by (rule length_split_on_pos)
  then consider "length ts = 1" | "length ts = 2" | "length ts = 3" | "4 \<le> length ts" by arith
  then show ?thesis
  proof cases
    case 1 then show ?thesis by (simp add: explodeToFour_def Let_def ts_def [symmetric])
  next
    case 2 then show ?thesis by (simp add: explodeToFour_def Let_def ts_def [symmetric])
  next
    case 3 then show ?thesis by (simp add: explodeToFour_def Let_def ts_def [symmetric])
  next
    case 4 then show ?thesis by (simp add: explodeToFour_def Let_def ts_def [symmetric])
  qed
qed

lemma sublist_single: "sublist [c] s = (c \<in> set s)"
  by (induction s) (auto simp: sublist_Cons_right)

lemma indexOf_char: "(indexOf s [c] > - 1) = (c \<in> set s)"
  by (simp add: indexOf_sublist sublist_single)

lemma at_Str_four:
  assumes "4 \<le> length xs"
  shows "at (map Str xs) 0 = Str (xs ! 0)" "at (map Str xs) (Suc 0) = Str (xs ! Suc 0)"
    "at (map Str xs) 2 = Str (xs ! 2)" "at (map Str xs) 3 = Str (xs ! 3)"
  using four_indices [OF assms] by (simp_all add: at_def)

subsection \<open>Border sides\<close>

lemma borderSide_keyword:
  "value \<in> set borderStyles \<Longrightarrow>
   borderSide value side =
     [(''border'' @ side @ ''Width'', Str ''initial''), (''border'' @ side @ ''Style'', Str value),
      (''border'' @ side @ ''Color'', Str ''initial'')]"
  by (simp add: borderSide_def Let_def set_prop_named array_indexOf_mem)

lemma borderSide_single:
  "value \<notin> set borderStyles \<Longrightarrow> CHR '' '' \<notin> set value \<Longrightarrow>
   borderSide value side =
     [(''border'' @ side @ ''Width'', Str value), (''border'' @ side @ ''Style'', Str ''initial''),
      (''border'' @ side @ ''Color'', Str ''initial'')]"
  by (simp add: borderSide_def Let_def set_prop_named array_indexOf_mem split_on_none truthy_at_def)

text \<open>
  C3. For every side: when the value is one of the ten border-style keywords,
  \<open>borderSide\<close> returns Width \<open>initial\<close>, Style the keyword and Color \<open>initial\<close>; for
  every other value of one token (no space in it, the empty string included) it returns
  Width the token and Style and Color \<open>initial\<close>. The second round of assignments in the
  one-token branch changes nothing.
\<close>

theorem borderSide_keyword_or_single_token:
  "set borderStyles = {''none'', ''hidden'', ''dotted'', ''dashed'', ''solid'', ''double'',
                       ''groove'', ''ridge'', ''inset'', ''outset''} \<and>
   (value \<in> set borderStyles \<longrightarrow>
      borderSide value side =
        [(''border'' @ side @ ''Width'', Str ''initial''),
         (''border'' @ side @ ''Style'', Str value),
         (''border'' @ side @ ''Color'', Str ''initial'')]) \<and>
   (value \<notin> set borderStyles \<and> CHR '' '' \<notin> set value \<longrightarrow>
      borderSide value side =
        [(''border'' @ side @ ''Width'', Str value),
         (''border'' @ side @ ''Style'', Str ''initial''),
         (''border'' @ side @ ''Color'', Str ''initial'')])"
  using borderSide_keyword [of "value" side] borderSide_single [of "value" side]
  by (simp add: borderStyles_def)

theorem borderSide_keyword_or_single_token_witness:
  "borderSide ''solid'' ''Top'' =
     [(''borderTopWidth'', Str ''initial''), (''borderTopStyle'', Str ''solid''),
      (''borderTopColor'', Str ''initial'')] \<and>
   borderSide ''1px'' ''Top'' =
     [(''borderTopWidth'', Str ''1px''), (''borderTopStyle'', Str ''initial''),
      (''borderTopColor'', Str ''initial'')]"
  using borderSide_keyword_or_single_token [of "''solid''" "''Top''"]
    borderSide_keyword_or_single_token [of "''1px''" "''Top''"]
  by simp

subsection \<open>Border radius\<close>

lemma borderRadius_plain:
  assumes "CHR ''/'' \<notin> set value"
  shows "borderRadius value =
     [(''borderTopLeftRadius'', Str (explodeToFour value ! 0)),
      (''borderTopRightRadius'', Str (explodeToFour value ! 1)),
      (''borderBottomRightRadius'', Str (explodeToFour value ! 2)),
      (''borderBottomLeftRadius'', Str (explodeToFour value ! 3))]"
  using assms
  by (simp add: borderRadius_def Let_def indexOf_char split_on_none applyFourCorner_entries
      or_empty_def at_Str_four [OF explodeToFour_length])

lemma borderRadius_slash:
  assumes "CHR ''/'' \<notin> set h"
  shows "borderRadius (h @ ''/'' @ v) =
     (let a = explodeToFour h; b = explodeToFour (hd (split_on CHR ''/'' v))
      in [(''borderTopLeftRadius'', Str (a ! 0 @ '' '' @ b ! 0)),
          (''borderTopRightRadius'', Str (a ! 1 @ '' '' @ b ! 1)),
          (''borderBottomRightRadius'', Str (a ! 2 @ '' '' @ b ! 2)),
          (''borderBottomLeftRadius'', Str (a ! 3 @ '' '' @ b ! 3))])"
proof -
  define a where "a = explodeToFour h"
  define b where "b = explodeToFour (hd (split_on CHR ''/'' v))"
  define two where "two = map (\<lambda>(v, index). v @ '' '' @ printed b index) (zip a [0 ..< length a])"
  have sp: "split_on CHR ''/'' (h @ CHR ''/'' # v) = h # split_on CHR ''/'' v"
    using assms by (rule split_on_at)
  have first: "split_on CHR ''/'' (h @ ''/'' @ v) ! 0 = h"
    by (simp add: sp)
  have second: "split_on CHR ''/'' (h @ ''/'' @ v) ! 1 = hd (split_on CHR ''/'' v)"
    using split_on_nonempty [of "CHR ''/''" v] by (simp add: sp hd_conv_nth)
  have la: "4 \<le> length a" unfolding a_def by (rule explodeToFour_length)
  have lb: "4 \<le> length b" unfolding b_def by (rule explodeToFour_length)
  have ix: "indexOf (h @ ''/'' @ v) ''/'' > - 1" by (simp add: indexOf_char)
  have l2: "4 \<le> length two" using la by (simp add: two_def)
  have el: "two ! 0 = a ! 0 @ '' '' @ b ! 0" "two ! Suc 0 = a ! Suc 0 @ '' '' @ b ! Suc 0"
    "two ! 2 = a ! 2 @ '' '' @ b ! 2" "two ! 3 = a ! 3 @ '' '' @ b ! 3"
    using four_indices [OF la] four_indices [OF lb] unfolding two_def
    by (simp_all add: printed_def numeral_2_eq_2 numeral_3_eq_3)
  have "borderRadius (h @ ''/'' @ v) = applyFourCorner (map Str two) (Some ''border'') (Some ''Radius'')"
    unfolding borderRadius_def Let_def first second using ix
    by (simp only: if_True a_def b_def two_def)
  then show ?thesis
    by (simp add: applyFourCorner_entries or_empty_def at_Str_four [OF l2] el Let_def
        a_def [symmetric] b_def [symmetric])
qed

text \<open>
  C5. For a value \<open>h/v\<close>, \<open>borderRadius\<close> expands both halves to four slots each and
  returns the four corner keys, each holding the horizontal slot, a space and the vertical
  slot of its index (of what follows the first slash, the part before the next slash
  counts). For a value without a slash only the first axis is used. In particular
  \<open>borderRadius("4px/8px")\<close> maps the four corners to \<open>4px 8px\<close>.
\<close>

theorem borderRadius_axes:
  "(CHR ''/'' \<notin> set h \<longrightarrow>
      borderRadius (h @ ''/'' @ v) =
        (let a = explodeToFour h; b = explodeToFour (hd (split_on CHR ''/'' v))
         in [(''borderTopLeftRadius'', Str (a ! 0 @ '' '' @ b ! 0)),
             (''borderTopRightRadius'', Str (a ! 1 @ '' '' @ b ! 1)),
             (''borderBottomRightRadius'', Str (a ! 2 @ '' '' @ b ! 2)),
             (''borderBottomLeftRadius'', Str (a ! 3 @ '' '' @ b ! 3))])) \<and>
   (CHR ''/'' \<notin> set value \<longrightarrow>
      borderRadius value =
        [(''borderTopLeftRadius'', Str (explodeToFour value ! 0)),
         (''borderTopRightRadius'', Str (explodeToFour value ! 1)),
         (''borderBottomRightRadius'', Str (explodeToFour value ! 2)),
         (''borderBottomLeftRadius'', Str (explodeToFour value ! 3))]) \<and>
   borderRadius ''4px/8px'' =
     [(''borderTopLeftRadius'', Str ''4px 8px''), (''borderTopRightRadius'', Str ''4px 8px''),
      (''borderBottomRightRadius'', Str ''4px 8px''), (''borderBottomLeftRadius'', Str ''4px 8px'')]"
proof -
  have "borderRadius ''4px/8px'' =
     [(''borderTopLeftRadius'', Str ''4px 8px''), (''borderTopRightRadius'', Str ''4px 8px''),
      (''borderBottomRightRadius'', Str ''4px 8px''), (''borderBottomLeftRadius'', Str ''4px 8px'')]"
    using borderRadius_slash [of "''4px''" "''8px''"] by (simp add: explodeToFour_def Let_def)
  with borderRadius_slash [of h v] borderRadius_plain [of "value"] show ?thesis by blast
qed

theorem borderRadius_axes_witness:
  "borderRadius ''1px 2px/3px'' =
     [(''borderTopLeftRadius'', Str ''1px 3px''), (''borderTopRightRadius'', Str ''2px 3px''),
      (''borderBottomRightRadius'', Str ''1px 3px''), (''borderBottomLeftRadius'', Str ''2px 3px'')] \<and>
   borderRadius ''1px 2px'' =
     [(''borderTopLeftRadius'', Str ''1px''), (''borderTopRightRadius'', Str ''2px''),
      (''borderBottomRightRadius'', Str ''1px''), (''borderBottomLeftRadius'', Str ''2px'')]"
  using borderRadius_axes [of "''1px 2px''" "''3px''" "''1px 2px''"]
  by (simp add: explodeToFour_def Let_def)

subsection \<open>Units\<close>

lemma applyPX_nth:
  "i < length vs \<Longrightarrow>
   applyPX vs ! i =
     (if sublist ''px'' (vs ! i) \<or> sublist ''em'' (vs ! i) \<or> sublist ''pt'' (vs ! i)
         \<or> sublist ''%'' (vs ! i)
      then vs ! i else vs ! i @ ''px'')"
  by (simp add: applyPX_def units_def indexOf_sublist)

text \<open>
  C10, as the code has it. \<open>applyPX\<close> returns a sequence of the same length. A token is
  returned unchanged when one of \<open>px\<close>, \<open>em\<close>, \<open>pt\<close>, \<open>%\<close> occurs anywhere in it, and gets
  \<open>px\<close> appended when none occurs in it; so a token that ends in one of the four units is
  returned unchanged. The test is \<open>indexOf(u) > -1\<close>, not a test of the suffix.
\<close>

theorem applyPX_unit_anywhere:
  "length (applyPX values) = length values \<and>
   (\<forall>i<length values.
      applyPX values ! i =
        (if sublist ''px'' (values ! i) \<or> sublist ''em'' (values ! i)
            \<or> sublist ''pt'' (values ! i) \<or> sublist ''%'' (values ! i)
         then values ! i else values ! i @ ''px'')) \<and>
   (\<forall>i<length values.
      suffix ''px'' (values ! i) \<or> suffix ''em'' (values ! i)
        \<or> suffix ''pt'' (values ! i) \<or> suffix ''%'' (values ! i)
      \<longrightarrow> applyPX values ! i = values ! i)"
proof -
  have len: "length (applyPX values) = length values"
    by (simp add: applyPX_def)
  have "applyPX values ! i = values ! i"
    if "i < length values"
      "suffix ''px'' (values ! i) \<or> suffix ''em'' (values ! i)
        \<or> suffix ''pt'' (values ! i) \<or> suffix ''%'' (values ! i)" for i
    using that suffix_imp_sublist by (auto simp: applyPX_nth)
  with len show ?thesis by (simp add: applyPX_nth)
qed

theorem applyPX_unit_anywhere_witness:
  "length (applyPX [''10'', ''1.5em'', ''50%'']) = 3 \<and>
   applyPX [''10'', ''1.5em'', ''50%''] ! 0 = ''10px'' \<and>
   applyPX [''10'', ''1.5em'', ''50%''] ! 1 = ''1.5em'' \<and>
   applyPX [''10'', ''1.5em'', ''50%''] ! 2 = ''50%''"
  using applyPX_unit_anywhere [of "[''10'', ''1.5em'', ''50%'']"]
  by (simp add: sublist_code)

text \<open>
  The token \<open>1pxx\<close> ends in none of the four units, and \<open>applyPX\<close> returns it unchanged
  because \<open>px\<close> occurs inside it.
\<close>

theorem applyPX_suffix_counterexample:
  "applyPX [''1pxx''] = [''1pxx''] \<and>
   \<not> suffix ''px'' ''1pxx'' \<and> \<not> suffix ''em'' ''1pxx'' \<and>
   \<not> suffix ''pt'' ''1pxx'' \<and> \<not> suffix ''%'' ''1pxx''"
  by (simp add: applyPX_def units_def suffix_to_prefix)

subsection \<open>Merging and the four sides\<close>

lemma put_all_obj_append:
  "distinct (map fst es) \<Longrightarrow>
   \<forall>k\<in>fst ` set es. parse_index k = None \<and> k \<noteq> ''__proto__'' \<and> k \<notin> fst ` set ps \<Longrightarrow>
   put_all (Obj ps) es = Returns (Obj (ps @ es))"
proof (induction es arbitrary: ps)
  case Nil
  then show ?case by simp
next
  case (Cons e es)
  obtain k v where e: "e = (k, v)" by (cases e)
  from Cons.prems have k: "parse_index k = None" "k \<noteq> ''__proto__''" "k \<notin> fst ` set ps"
    by (simp_all add: e)
  have step: "put (Obj ps) k v = Returns (Obj (ps @ [(k, v)]))"
    using k by (simp add: set_prop_named update_fresh)
  have "put_all (Obj (ps @ [(k, v)])) es = Returns (Obj ((ps @ [(k, v)]) @ es))"
  proof (rule Cons.IH)
    show "distinct (map fst es)" using Cons.prems by simp
    show "\<forall>k'\<in>fst ` set es. parse_index k' = None \<and> k' \<noteq> ''__proto__''
            \<and> k' \<notin> fst ` set (ps @ [(k, v)])"
      using Cons.prems by (auto simp: e)
  qed
  with step show ?case by (simp add: e)
qed

lemma borderSide_keys:
  "distinct (map fst (borderSide v s)) \<and>
   set (map fst (borderSide v s)) \<subseteq>
     {''border'' @ s @ ''Width'', ''border'' @ s @ ''Style'', ''border'' @ s @ ''Color''}"
  by (auto simp: borderSide_def Let_def set_prop_named)

lemma borderSide_named:
  "k \<in> fst ` set (borderSide v s) \<Longrightarrow> parse_index k = None \<and> k \<noteq> ''__proto__''"
  using borderSide_keys [of v s] by auto

lemma put_all_obj_distinct:
  assumes "distinct (map fst (ps @ es))"
    and "\<And>k. k \<in> fst ` set es \<Longrightarrow> parse_index k = None \<and> k \<noteq> ''__proto__''"
  shows "put_all (Obj ps) es = Returns (Obj (ps @ es))"
proof (rule put_all_obj_append)
  show "distinct (map fst es)" using assms(1) by simp
  show "\<forall>k\<in>fst ` set es. parse_index k = None \<and> k \<noteq> ''__proto__'' \<and> k \<notin> fst ` set ps"
  proof
    fix k assume k: "k \<in> fst ` set es"
    have "set (map fst ps) \<inter> set (map fst es) = {}" using assms(1) by simp
    with k have "k \<notin> fst ` set ps" by auto
    with assms(2) [OF k] show "parse_index k = None \<and> k \<noteq> ''__proto__'' \<and> k \<notin> fst ` set ps"
      by simp
  qed
qed

lemma disjoint_subsets: "A \<subseteq> A' \<Longrightarrow> B \<subseteq> B' \<Longrightarrow> A' \<inter> B' = {} \<Longrightarrow> A \<inter> B = {}"
  by blast

lemma distinct_keys_front: "distinct (map fst (xs @ ys)) \<Longrightarrow> distinct (map fst xs)"
  by simp

lemma borderSide_distinct: "distinct (map fst (borderSide v s))"
  using borderSide_keys [of v s] by (rule conjunct1)

lemma borderSide_subset:
  "set (map fst (borderSide v s)) \<subseteq>
     {''border'' @ s @ ''Width'', ''border'' @ s @ ''Style'', ''border'' @ s @ ''Color''}"
  using borderSide_keys [of v s] by (rule conjunct2)

lemma side_keys_disjoint:
  assumes "s \<noteq> s'"
  shows "set (map fst (borderSide v s)) \<inter> set (map fst (borderSide v' s')) = {}"
proof (rule disjoint_subsets [OF borderSide_subset borderSide_subset])
  show "{''border'' @ s @ ''Width'', ''border'' @ s @ ''Style'', ''border'' @ s @ ''Color''} \<inter>
        {''border'' @ s' @ ''Width'', ''border'' @ s' @ ''Style'', ''border'' @ s' @ ''Color''} = {}"
  proof -
    have "s @ a \<noteq> s' @ b" if "length a = length b" for a b :: string
      using assms that by (metis append_eq_append_conv)
    from this [of "''Width''" "''Width''"] this [of "''Width''" "''Style''"]
      this [of "''Width''" "''Color''"] this [of "''Style''" "''Width''"]
      this [of "''Style''" "''Style''"] this [of "''Style''" "''Color''"]
      this [of "''Color''" "''Width''"] this [of "''Color''" "''Style''"]
      this [of "''Color''" "''Color''"]
    have "s @ ''Width'' \<noteq> s' @ ''Width''" "s @ ''Width'' \<noteq> s' @ ''Style''"
      "s @ ''Width'' \<noteq> s' @ ''Color''" "s @ ''Style'' \<noteq> s' @ ''Width''"
      "s @ ''Style'' \<noteq> s' @ ''Style''" "s @ ''Style'' \<noteq> s' @ ''Color''"
      "s @ ''Color'' \<noteq> s' @ ''Width''" "s @ ''Color'' \<noteq> s' @ ''Style''"
      "s @ ''Color'' \<noteq> s' @ ''Color''"
      by simp_all
    then show ?thesis by simp
  qed
qed

lemma four_sides_distinct:
  "distinct (map fst (borderSide v ''Left'' @ borderSide v ''Right'' @ borderSide v ''Top''
      @ borderSide v ''Bottom''))"
proof -
  have "set (map fst (borderSide v ''Left'')) \<inter> set (map fst (borderSide v ''Right'')) = {}"
    "set (map fst (borderSide v ''Left'')) \<inter> set (map fst (borderSide v ''Top'')) = {}"
    "set (map fst (borderSide v ''Left'')) \<inter> set (map fst (borderSide v ''Bottom'')) = {}"
    "set (map fst (borderSide v ''Right'')) \<inter> set (map fst (borderSide v ''Top'')) = {}"
    "set (map fst (borderSide v ''Right'')) \<inter> set (map fst (borderSide v ''Bottom'')) = {}"
    "set (map fst (borderSide v ''Top'')) \<inter> set (map fst (borderSide v ''Bottom'')) = {}"
    by (rule side_keys_disjoint, simp)+
  then show ?thesis
    by (simp only: map_append distinct_append set_append Int_Un_distrib Un_empty
        borderSide_distinct simp_thms)
qed

lemma border_concat:
  "border v = Returns (Obj (borderSide v ''Left'' @ borderSide v ''Right'' @ borderSide v ''Top''
      @ borderSide v ''Bottom''))"
proof -
  let ?L = "borderSide v ''Left''" and ?R = "borderSide v ''Right''"
  let ?T = "borderSide v ''Top''" and ?B = "borderSide v ''Bottom''"
  have d: "distinct (map fst (?L @ ?R @ ?T @ ?B))" by (rule four_sides_distinct)
  have d4: "distinct (map fst (((?L @ ?R) @ ?T) @ ?B))" using d by simp
  have d3: "distinct (map fst ((?L @ ?R) @ ?T))" using d4 by (rule distinct_keys_front)
  have d2: "distinct (map fst (?L @ ?R))" using d3 by (rule distinct_keys_front)
  have d1: "distinct (map fst ([] @ ?L))" using distinct_keys_front [OF d2] by simp
  have 1: "put_all (Obj []) ?L = Returns (Obj ([] @ ?L))"
    using d1 by (rule put_all_obj_distinct) (rule borderSide_named)
  have 2: "put_all (Obj ?L) ?R = Returns (Obj (?L @ ?R))"
    using d2 by (rule put_all_obj_distinct) (rule borderSide_named)
  have 3: "put_all (Obj (?L @ ?R)) ?T = Returns (Obj ((?L @ ?R) @ ?T))"
    using d3 by (rule put_all_obj_distinct) (rule borderSide_named)
  have 4: "put_all (Obj ((?L @ ?R) @ ?T)) ?B = Returns (Obj (((?L @ ?R) @ ?T) @ ?B))"
    using d4 by (rule put_all_obj_distinct) (rule borderSide_named)
  show ?thesis
    unfolding border_def assign_def own_entries.simps
    using 1 2 3 4 by simp
qed

lemma borderSide_three:
  "borderSide ''1px solid red'' s =
     [(''border'' @ s @ ''Width'', Str ''1px''), (''border'' @ s @ ''Style'', Str ''solid''),
      (''border'' @ s @ ''Color'', Str ''red'')]"
  by (simp add: borderSide_def borderStyles_def Let_def set_prop_named truthy_at_def)

lemma this_member_border: "this_member ''border'' = Some border"
  by (simp add: this_member_def members_def)

lemma this_member_color: "this_member ''color'' = None"
  by (simp add: this_member_def members_def)

lemma build_border_color:
  "build (Obj [(''border'', Str ''1px solid red''), (''color'', Str ''blue'')]) =
     Returns (Obj
       [(''borderLeftWidth'', Str ''1px''), (''borderLeftStyle'', Str ''solid''),
        (''borderLeftColor'', Str ''red''),
        (''borderRightWidth'', Str ''1px''), (''borderRightStyle'', Str ''solid''),
        (''borderRightColor'', Str ''red''),
        (''borderTopWidth'', Str ''1px''), (''borderTopStyle'', Str ''solid''),
        (''borderTopColor'', Str ''red''),
        (''borderBottomWidth'', Str ''1px''), (''borderBottomStyle'', Str ''solid''),
        (''borderBottomColor'', Str ''red''),
        (''color'', Str ''blue'')])"
  by (simp add: has_length_def this_member_border this_member_color border_concat borderSide_three
      assign_def set_prop_named parse_index_nondigit is_digit_def)

subsection \<open>What the properties of the builder return\<close>

lemma member_names:
  "map fst members =
     [''_explodeToFour'', ''_applyFour'', ''_applyFourCorner'', ''applyPX'', ''margin'', ''padding'',
      ''borderRadius'', ''borderStyle'', ''borderColor'', ''borderWidth'', ''borderSide'',
      ''borderLeft'', ''borderRight'', ''borderTop'', ''borderBottom'', ''border'', ''build'',
      ''constructor'', ''hasOwnProperty'', ''isPrototypeOf'', ''propertyIsEnumerable'',
      ''toString'', ''toLocaleString'', ''valueOf'', ''__defineGetter__'', ''__defineSetter__'',
      ''__lookupGetter__'', ''__lookupSetter__'', ''__proto__'']"
  by (simp add: members_def)

lemma this_member_None: "(this_member k = None) = (k \<notin> set (map fst members))"
  by (simp add: this_member_def map_of_eq_None_iff)

lemma member_names_head: "list_all (\<lambda>k. k \<noteq> [] \<and> \<not> is_digit (hd k)) (map fst members)"
  unfolding member_names by (simp add: is_digit_def)

lemma member_has_letter: "this_member k = Some m \<Longrightarrow> \<exists>c\<in>set k. \<not> is_digit c"
proof -
  assume "this_member k = Some m"
  then have "k \<in> set (map fst members)"
    using this_member_None [of k] by auto
  with member_names_head have "k \<noteq> [] \<and> \<not> is_digit (hd k)"
    unfolding list_all_iff by blast
  then have "k \<noteq> []" "\<not> is_digit (hd k)" by simp_all
  then show ?thesis using hd_in_set by blast
qed

lemma digit_char_digit: "n < 10 \<Longrightarrow> is_digit (digit_char n)"
  unfolding is_digit_def digit_char_def by (rule nth_mem) simp

lemma index_key_digits: "list_all is_digit (index_key n)"
proof (induction n rule: index_key.induct)
  case (1 n)
  show ?case
  proof (cases "n < 10")
    case True
    then show ?thesis by (subst index_key.simps) (simp add: digit_char_digit)
  next
    case False
    then have "list_all is_digit (index_key (n div 10))" by (rule "1.IH")
    moreover have "is_digit (digit_char (n mod 10))" by (rule digit_char_digit) simp
    ultimately show ?thesis using False by (subst index_key.simps) simp
  qed
qed

lemma index_key_free: "this_member (index_key n) = None"
proof (cases "this_member (index_key n)")
  case None
  then show ?thesis .
next
  case (Some m)
  then obtain c where "c \<in> set (index_key n)" "\<not> is_digit c"
    using member_has_letter by blast
  with index_key_digits [of n] show ?thesis by (simp add: list_all_iff)
qed

lemma index_key_not_length: "index_key n \<noteq> ''length''"
proof
  assume "index_key n = ''length''"
  with index_key_digits [of n] show False by (simp add: is_digit_def)
qed

lemma produced_free:
  "k \<in> set [''Top'', ''Right'', ''Bottom'', ''Left'',
              ''TopLeft'', ''TopRight'', ''BottomRight'', ''BottomLeft'',
              ''marginTop'', ''marginRight'', ''marginBottom'', ''marginLeft'',
              ''paddingTop'', ''paddingRight'', ''paddingBottom'', ''paddingLeft'',
              ''borderTopLeftRadius'', ''borderTopRightRadius'', ''borderBottomRightRadius'',
              ''borderBottomLeftRadius'',
              ''borderTopStyle'', ''borderRightStyle'', ''borderBottomStyle'', ''borderLeftStyle'',
              ''borderTopColor'', ''borderRightColor'', ''borderBottomColor'', ''borderLeftColor'',
              ''borderTopWidth'', ''borderRightWidth'', ''borderBottomWidth'', ''borderLeftWidth'',
              ''borderundefinedWidth'', ''borderundefinedStyle'', ''borderundefinedColor'']
   \<Longrightarrow> this_member k = None \<and> k \<noteq> ''length''"
  unfolding this_member_None member_names by auto

lemma at_chars: "at (chars s) i = Undefined \<or> (\<exists>t. at (chars s) i = Str t)"
  by (simp add: at_def chars_def)

lemma at_Strs: "at (map Str e) i = Undefined \<or> (\<exists>t. at (map Str e) i = Str t)"
  by (simp add: at_def)

lemma plain_applyFour:
  assumes "\<And>i. at xs i = Undefined \<or> (\<exists>t. at xs i = Str t)"
    and "\<And>side. side \<in> {''Top'', ''Right'', ''Bottom'', ''Left''} \<Longrightarrow>
           this_member (or_empty p @ side @ or_empty s) = None \<and>
           or_empty p @ side @ or_empty s \<noteq> ''length''"
  shows "list_all plain_entry (applyFour xs p s)"
  using assms(1) [of 0] assms(1) [of 1] assms(1) [of 2] assms(1) [of 3]
    assms(2) [of "''Top''"] assms(2) [of "''Right''"] assms(2) [of "''Bottom''"] assms(2) [of "''Left''"]
  by (simp add: applyFour_entries plain_entry_def)

lemma plain_applyFourCorner:
  assumes "\<And>i. at xs i = Undefined \<or> (\<exists>t. at xs i = Str t)"
    and "\<And>side. side \<in> {''TopLeft'', ''TopRight'', ''BottomRight'', ''BottomLeft''} \<Longrightarrow>
           this_member (or_empty p @ side @ or_empty s) = None \<and>
           or_empty p @ side @ or_empty s \<noteq> ''length''"
  shows "list_all plain_entry (applyFourCorner xs p s)"
  using assms(1) [of 0] assms(1) [of 1] assms(1) [of 2] assms(1) [of 3]
    assms(2) [of "''TopLeft''"] assms(2) [of "''TopRight''"] assms(2) [of "''BottomRight''"]
    assms(2) [of "''BottomLeft''"]
  by (simp add: applyFourCorner_entries plain_entry_def)

lemma borderSide_values: "(k, v) \<in> set (borderSide x s) \<Longrightarrow> \<exists>t. v = Str t"
  by (auto simp: borderSide_def Let_def set_prop_named split: if_splits)

lemma borderSide_produced:
  assumes "(k, v) \<in> set (borderSide x s)"
  shows "k = ''border'' @ s @ ''Width'' \<or> k = ''border'' @ s @ ''Style'' \<or> k = ''border'' @ s @ ''Color''"
proof -
  from assms have "k \<in> set (map fst (borderSide x s))" by force
  then show ?thesis using borderSide_subset [of x s] by blast
qed

lemma plain_borderSide:
  assumes "s = ''Left'' \<or> s = ''Right'' \<or> s = ''Top'' \<or> s = ''Bottom'' \<or> s = ''undefined''"
  shows "list_all plain_entry (borderSide x s)"
proof -
  have "plain_entry (k, v)" if kv: "(k, v) \<in> set (borderSide x s)" for k v
  proof -
    have "this_member k = None \<and> k \<noteq> ''length''"
    proof (rule produced_free)
      from assms borderSide_produced [OF kv]
      show "k \<in> set [''Top'', ''Right'', ''Bottom'', ''Left'',
              ''TopLeft'', ''TopRight'', ''BottomRight'', ''BottomLeft'',
              ''marginTop'', ''marginRight'', ''marginBottom'', ''marginLeft'',
              ''paddingTop'', ''paddingRight'', ''paddingBottom'', ''paddingLeft'',
              ''borderTopLeftRadius'', ''borderTopRightRadius'', ''borderBottomRightRadius'',
              ''borderBottomLeftRadius'',
              ''borderTopStyle'', ''borderRightStyle'', ''borderBottomStyle'', ''borderLeftStyle'',
              ''borderTopColor'', ''borderRightColor'', ''borderBottomColor'', ''borderLeftColor'',
              ''borderTopWidth'', ''borderRightWidth'', ''borderBottomWidth'', ''borderLeftWidth'',
              ''borderundefinedWidth'', ''borderundefinedStyle'', ''borderundefinedColor'']"
        by (elim disjE) simp_all
    qed
    with borderSide_values [OF kv] show ?thesis by (simp add: plain_entry_def)
  qed
  then show ?thesis by (auto simp: list_all_iff)
qed

lemma indexed_entry:
  "(k, v) \<in> set (indexed xs) \<Longrightarrow> (\<exists>i. k = index_key i) \<and> v \<in> set xs"
  by (auto simp: indexed_def set_zip)

lemma plain_indexed:
  assumes "\<And>v. v \<in> set xs \<Longrightarrow> \<exists>t. v = Str t"
  shows "list_all plain_entry (indexed xs)"
proof -
  have "plain_entry (k, v)" if "(k, v) \<in> set (indexed xs)" for k v
    using indexed_entry [OF that] assms [of v]
    by (auto simp: plain_entry_def index_key_free index_key_not_length)
  then show ?thesis by (auto simp: list_all_iff)
qed

lemma plain_chars: "list_all plain_entry (indexed (chars s))"
  by (rule plain_indexed) (auto simp: chars_def)

lemma present_entry:
  "(k, v) \<in> set (present_from i es) \<Longrightarrow> (\<exists>j. k = index_key j) \<and> Some v \<in> set es"
  by (induction i es rule: present_from.induct) auto

lemma plain_dense:
  assumes "\<And>v. v \<in> set xs \<Longrightarrow> \<exists>t. v = Str t"
  shows "list_all plain_entry (own_entries (dense xs))"
proof -
  have "plain_entry (k, v)" if "(k, v) \<in> set (present_from 0 (map Some xs))" for k v
    using present_entry [OF that] assms [of v]
    by (auto simp: plain_entry_def index_key_free index_key_not_length)
  then show ?thesis by (auto simp: list_all_iff dense_def)
qed

lemma plain_helpers:
  "list_all plain_entry (own_entries (dense (map Str e)))"
  "list_all plain_entry (own_entries (dense (chars s)))"
  "list_all plain_entry (applyFour (chars s) None None)"
  "list_all plain_entry (applyFourCorner (chars s) None None)"
proof -
  show "list_all plain_entry (own_entries (dense (map Str e)))"
    by (rule plain_dense) auto
  show "list_all plain_entry (own_entries (dense (chars s)))"
    by (rule plain_dense) (auto simp: chars_def)
  show "list_all plain_entry (applyFour (chars s) None None)"
    by (rule plain_applyFour [OF at_chars], rule produced_free) (auto simp: or_empty_def)
  show "list_all plain_entry (applyFourCorner (chars s) None None)"
    by (rule plain_applyFourCorner [OF at_chars], rule produced_free) (auto simp: or_empty_def)
qed

lemma plain_expanders:
  "list_all plain_entry (margin s)"
  "list_all plain_entry (padding s)"
  "list_all plain_entry (borderStyle s)"
  "list_all plain_entry (borderColor s)"
  "list_all plain_entry (borderWidth s)"
  "list_all plain_entry (borderRadius s)"
proof -
  show "list_all plain_entry (margin s)" unfolding margin_def
    by (rule plain_applyFour [OF at_Strs], rule produced_free) (auto simp: or_empty_def)
  show "list_all plain_entry (padding s)" unfolding padding_def
    by (rule plain_applyFour [OF at_Strs], rule produced_free) (auto simp: or_empty_def)
  show "list_all plain_entry (borderStyle s)" unfolding borderStyle_def
    by (rule plain_applyFour [OF at_Strs], rule produced_free) (auto simp: or_empty_def)
  show "list_all plain_entry (borderColor s)" unfolding borderColor_def
    by (rule plain_applyFour [OF at_Strs], rule produced_free) (auto simp: or_empty_def)
  show "list_all plain_entry (borderWidth s)" unfolding borderWidth_def
    by (rule plain_applyFour [OF at_Strs], rule produced_free) (auto simp: or_empty_def)
  show "list_all plain_entry (borderRadius s)" unfolding borderRadius_def Let_def
    by (rule plain_applyFourCorner [OF at_Strs], rule produced_free) (auto simp: or_empty_def)
qed

lemma plain_sides:
  "list_all plain_entry (borderSide s ''undefined'')"
  "list_all plain_entry (borderLeft s)"
  "list_all plain_entry (borderRight s)"
  "list_all plain_entry (borderTop s)"
  "list_all plain_entry (borderBottom s)"
  unfolding borderLeft_def borderRight_def borderTop_def borderBottom_def
  by (rule plain_borderSide, simp)+

lemma plain_border: "border s = Returns r \<Longrightarrow> list_all plain_entry (own_entries r)"
  using plain_borderSide [of "''Left''" s] plain_borderSide [of "''Right''" s]
    plain_borderSide [of "''Top''" s] plain_borderSide [of "''Bottom''" s]
  by (auto simp: border_concat)

lemma member_returns:
  assumes "this_member k = Some m" and "m s = Returns r"
  shows "list_all plain_entry (own_entries r)"
proof -
  have "\<forall>f\<in>set (map snd members). \<forall>r. f s = Returns r \<longrightarrow> list_all plain_entry (own_entries r)"
    unfolding members_def
    by (simp add: plain_helpers plain_expanders plain_sides plain_border build_string_def plain_chars)
  moreover have "m \<in> set (map snd members)"
    using assms(1) unfolding this_member_def by (force dest: map_of_SomeD)
  ultimately show ?thesis using assms(2) by blast
qed

subsection \<open>Borders, callables and null\<close>

lemma put_obj: "k \<noteq> ''__proto__'' \<Longrightarrow> put (Obj ps) k v = Returns (Obj (set_prop ps k v))"
  by simp

lemma this_member_proto: "this_member ''__proto__'' \<noteq> None"
  by (simp add: this_member_def members_def)

lemma plain_not_proto: "plain_entry (k, v) \<Longrightarrow> k \<noteq> ''__proto__''"
  using this_member_proto by (auto simp: plain_entry_def)

lemma this_member_length: "this_member ''length'' = None"
  by (simp add: this_member_None member_names)

text \<open>
  C4. \<open>border(value)\<close> is the merge of \<open>borderSide(value, s)\<close> for Left, Right, Top and
  Bottom. The keys of each side carry the name of the side, so the four results share no
  key and the merge is their concatenation. In particular
  \<open>build({border: "1px solid red", color: "blue"})\<close> is the twelve longhand keys followed by
  \<open>color: "blue"\<close>, without the key \<open>border\<close>.
\<close>

theorem border_merges_four_sides:
  "border value =
     Returns (Obj (borderSide value ''Left'' @ borderSide value ''Right''
                   @ borderSide value ''Top'' @ borderSide value ''Bottom'')) \<and>
   distinct (map fst (borderSide value ''Left'' @ borderSide value ''Right''
                      @ borderSide value ''Top'' @ borderSide value ''Bottom'')) \<and>
   set (map fst (borderSide value side)) \<subseteq>
     {''border'' @ side @ ''Width'', ''border'' @ side @ ''Style'', ''border'' @ side @ ''Color''} \<and>
   build (Obj [(''border'', Str ''1px solid red''), (''color'', Str ''blue'')]) =
     Returns (Obj
       [(''borderLeftWidth'', Str ''1px''), (''borderLeftStyle'', Str ''solid''),
        (''borderLeftColor'', Str ''red''),
        (''borderRightWidth'', Str ''1px''), (''borderRightStyle'', Str ''solid''),
        (''borderRightColor'', Str ''red''),
        (''borderTopWidth'', Str ''1px''), (''borderTopStyle'', Str ''solid''),
        (''borderTopColor'', Str ''red''),
        (''borderBottomWidth'', Str ''1px''), (''borderBottomStyle'', Str ''solid''),
        (''borderBottomColor'', Str ''red''),
        (''color'', Str ''blue'')])"
  using border_concat [of "value"] four_sides_distinct [of "value"] borderSide_subset [of "value" side]
    build_border_color
  by (intro conjI)

theorem border_merges_four_sides_witness:
  "border ''2px dashed'' =
     Returns (Obj
       [(''borderLeftWidth'', Str ''2px''), (''borderLeftStyle'', Str ''dashed''),
        (''borderRightWidth'', Str ''2px''), (''borderRightStyle'', Str ''dashed''),
        (''borderTopWidth'', Str ''2px''), (''borderTopStyle'', Str ''dashed''),
        (''borderBottomWidth'', Str ''2px''), (''borderBottomStyle'', Str ''dashed'')])"
proof -
  have "borderSide ''2px dashed'' s =
     [(''border'' @ s @ ''Width'', Str ''2px''), (''border'' @ s @ ''Style'', Str ''dashed'')]" for s
    by (simp add: borderSide_def borderStyles_def Let_def set_prop_named truthy_at_def)
  with border_merges_four_sides [of "''2px dashed''" "''Left''"] show ?thesis by simp
qed



text \<open>
  C7. A key that holds \<open>null\<close> is not copied: \<open>typeof null\<close> is \<open>"object"\<close>, so the loop
  body reads \<open>value.length\<close> of \<open>null\<close> and \<open>build\<close> throws a TypeError, whatever the
  other keys are. (A number, a boolean and \<open>undefined\<close> reach the last branch and are
  stored unchanged.)
\<close>

theorem null_value_throws:
  "build_props newStyles ((key, Null) # ps) = Throws TypeError \<and>
   build (Obj [(''a'', Null)]) = Throws TypeError"
  by (simp add: has_length_def)

theorem null_value_throws_witness:
  "build_props (Obj [(''color'', Str ''red'')]) [(''background'', Null)] = Throws TypeError"
  by (rule null_value_throws [THEN conjunct1])

lemma primitive_entry_stored:
  "v = Undefined \<or> (\<exists>b. v = Bool b) \<or> (\<exists>n. v = Num n) \<Longrightarrow>
   build_props newStyles ((key, v) # ps) = and_then (put newStyles key v) (\<lambda>t. build_props t ps)"
  by auto

subsection \<open>Strings under a key, and the shape of the result\<close>

lemma member_key_dropped:
  assumes "this_member key = Some method" and "method s = Returns r"
  shows "key \<notin> fst ` set (own_entries r)"
proof
  assume "key \<in> fst ` set (own_entries r)"
  then obtain v where "(key, v) \<in> set (own_entries r)" by auto
  with member_returns [OF assms] have "plain_entry (key, v)" by (simp add: list_all_iff)
  with assms(1) show False by (simp add: plain_entry_def)
qed

lemma shorthand_table:
  "this_member ''margin'' = Some (\<lambda>value. Returns (Obj (margin value)))"
  "this_member ''padding'' = Some (\<lambda>value. Returns (Obj (padding value)))"
  "this_member ''borderRadius'' = Some (\<lambda>value. Returns (Obj (borderRadius value)))"
  "this_member ''borderStyle'' = Some (\<lambda>value. Returns (Obj (borderStyle value)))"
  "this_member ''borderColor'' = Some (\<lambda>value. Returns (Obj (borderColor value)))"
  "this_member ''borderWidth'' = Some (\<lambda>value. Returns (Obj (borderWidth value)))"
  "this_member ''borderLeft'' = Some (\<lambda>value. Returns (Obj (borderLeft value)))"
  "this_member ''borderRight'' = Some (\<lambda>value. Returns (Obj (borderRight value)))"
  "this_member ''borderTop'' = Some (\<lambda>value. Returns (Obj (borderTop value)))"
  "this_member ''borderBottom'' = Some (\<lambda>value. Returns (Obj (borderBottom value)))"
  "this_member ''border'' = Some border"
  by (simp_all add: this_member_def members_def)

lemma build_single_member:
  assumes "this_member key = Some method" and "method s = Returns (Obj qs)"
    and "distinct (map fst qs)" and "\<And>k. k \<in> fst ` set qs \<Longrightarrow> parse_index k = None"
  shows "build (Obj [(key, Str s)]) = Returns (Obj qs)"
proof -
  have "key \<noteq> ''length''" using assms(1) this_member_length by auto
  then have nl: "\<not> has_length [(key, Str s)]" by (simp add: has_length_def)
  have plain: "list_all plain_entry qs" using member_returns [OF assms(1,2)] by simp
  have "put_all (Obj []) qs = Returns (Obj ([] @ qs))"
  proof (rule put_all_obj_distinct)
    show "distinct (map fst ([] @ qs))" using assms(3) by simp
    fix k assume k: "k \<in> fst ` set qs"
    then obtain v where "(k, v) \<in> set qs" by auto
    with plain have "plain_entry (k, v)" by (simp add: list_all_iff)
    with assms(4) [OF k] show "parse_index k = None \<and> k \<noteq> ''__proto__''"
      using plain_not_proto by blast
  qed
  with nl assms(1,2) show ?thesis by (simp add: assign_def)
qed

lemma applyFour_distinct: "distinct (map fst (applyFour xs p s))"
  by (simp add: applyFour_entries)

lemma applyFour_index_free: "k \<in> fst ` set (applyFour xs p s) \<Longrightarrow> parse_index k = None"
  unfolding applyFour_entries by (simp, elim disjE, simp_all)

lemma applyFourCorner_distinct: "distinct (map fst (applyFourCorner xs p s))"
  by (simp add: applyFourCorner_entries)

lemma applyFourCorner_index_free:
  "k \<in> fst ` set (applyFourCorner xs p s) \<Longrightarrow> parse_index k = None"
  unfolding applyFourCorner_entries by (simp, elim disjE, simp_all)

lemma borderSide_index_free: "k \<in> fst ` set (borderSide v s) \<Longrightarrow> parse_index k = None"
  by (rule borderSide_named [THEN conjunct1])

lemma build_single_shorthand:
  "build (Obj [(''margin'', Str s)]) = Returns (Obj (margin s))"
  "build (Obj [(''padding'', Str s)]) = Returns (Obj (padding s))"
  "build (Obj [(''borderRadius'', Str s)]) = Returns (Obj (borderRadius s))"
  "build (Obj [(''borderStyle'', Str s)]) = Returns (Obj (borderStyle s))"
  "build (Obj [(''borderColor'', Str s)]) = Returns (Obj (borderColor s))"
  "build (Obj [(''borderWidth'', Str s)]) = Returns (Obj (borderWidth s))"
  "build (Obj [(''borderLeft'', Str s)]) = Returns (Obj (borderLeft s))"
  "build (Obj [(''borderRight'', Str s)]) = Returns (Obj (borderRight s))"
  "build (Obj [(''borderTop'', Str s)]) = Returns (Obj (borderTop s))"
  "build (Obj [(''borderBottom'', Str s)]) = Returns (Obj (borderBottom s))"
  "build (Obj [(''border'', Str s)]) = border s"
proof -
  show "build (Obj [(''margin'', Str s)]) = Returns (Obj (margin s))"
  proof (rule build_single_member [OF shorthand_table(1), where qs = "margin s"])
    show "Returns (Obj (margin s)) = Returns (Obj (margin s))" ..
    show "distinct (map fst (margin s))" unfolding margin_def by (rule applyFour_distinct)
    show "\<And>k. k \<in> fst ` set (margin s) \<Longrightarrow> parse_index k = None"
      unfolding margin_def by (rule applyFour_index_free)
  qed
  show "build (Obj [(''padding'', Str s)]) = Returns (Obj (padding s))"
  proof (rule build_single_member [OF shorthand_table(2), where qs = "padding s"])
    show "Returns (Obj (padding s)) = Returns (Obj (padding s))" ..
    show "distinct (map fst (padding s))" unfolding padding_def by (rule applyFour_distinct)
    show "\<And>k. k \<in> fst ` set (padding s) \<Longrightarrow> parse_index k = None"
      unfolding padding_def by (rule applyFour_index_free)
  qed
  show "build (Obj [(''borderRadius'', Str s)]) = Returns (Obj (borderRadius s))"
  proof (rule build_single_member [OF shorthand_table(3), where qs = "borderRadius s"])
    show "Returns (Obj (borderRadius s)) = Returns (Obj (borderRadius s))" ..
    show "distinct (map fst (borderRadius s))" unfolding borderRadius_def Let_def by (rule applyFourCorner_distinct)
    show "\<And>k. k \<in> fst ` set (borderRadius s) \<Longrightarrow> parse_index k = None"
      unfolding borderRadius_def Let_def by (rule applyFourCorner_index_free)
  qed
  show "build (Obj [(''borderStyle'', Str s)]) = Returns (Obj (borderStyle s))"
  proof (rule build_single_member [OF shorthand_table(4), where qs = "borderStyle s"])
    show "Returns (Obj (borderStyle s)) = Returns (Obj (borderStyle s))" ..
    show "distinct (map fst (borderStyle s))" unfolding borderStyle_def by (rule applyFour_distinct)
    show "\<And>k. k \<in> fst ` set (borderStyle s) \<Longrightarrow> parse_index k = None"
      unfolding borderStyle_def by (rule applyFour_index_free)
  qed
  show "build (Obj [(''borderColor'', Str s)]) = Returns (Obj (borderColor s))"
  proof (rule build_single_member [OF shorthand_table(5), where qs = "borderColor s"])
    show "Returns (Obj (borderColor s)) = Returns (Obj (borderColor s))" ..
    show "distinct (map fst (borderColor s))" unfolding borderColor_def by (rule applyFour_distinct)
    show "\<And>k. k \<in> fst ` set (borderColor s) \<Longrightarrow> parse_index k = None"
      unfolding borderColor_def by (rule applyFour_index_free)
  qed
  show "build (Obj [(''borderWidth'', Str s)]) = Returns (Obj (borderWidth s))"
  proof (rule build_single_member [OF shorthand_table(6), where qs = "borderWidth s"])
    show "Returns (Obj (borderWidth s)) = Returns (Obj (borderWidth s))" ..
    show "distinct (map fst (borderWidth s))" unfolding borderWidth_def by (rule applyFour_distinct)
    show "\<And>k. k \<in> fst ` set (borderWidth s) \<Longrightarrow> parse_index k = None"
      unfolding borderWidth_def by (rule applyFour_index_free)
  qed
  show "build (Obj [(''borderLeft'', Str s)]) = Returns (Obj (borderLeft s))"
  proof (rule build_single_member [OF shorthand_table(7), where qs = "borderLeft s"])
    show "Returns (Obj (borderLeft s)) = Returns (Obj (borderLeft s))" ..
    show "distinct (map fst (borderLeft s))" unfolding borderLeft_def by (rule borderSide_distinct)
    show "\<And>k. k \<in> fst ` set (borderLeft s) \<Longrightarrow> parse_index k = None"
      unfolding borderLeft_def by (rule borderSide_index_free)
  qed
  show "build (Obj [(''borderRight'', Str s)]) = Returns (Obj (borderRight s))"
  proof (rule build_single_member [OF shorthand_table(8), where qs = "borderRight s"])
    show "Returns (Obj (borderRight s)) = Returns (Obj (borderRight s))" ..
    show "distinct (map fst (borderRight s))" unfolding borderRight_def by (rule borderSide_distinct)
    show "\<And>k. k \<in> fst ` set (borderRight s) \<Longrightarrow> parse_index k = None"
      unfolding borderRight_def by (rule borderSide_index_free)
  qed
  show "build (Obj [(''borderTop'', Str s)]) = Returns (Obj (borderTop s))"
  proof (rule build_single_member [OF shorthand_table(9), where qs = "borderTop s"])
    show "Returns (Obj (borderTop s)) = Returns (Obj (borderTop s))" ..
    show "distinct (map fst (borderTop s))" unfolding borderTop_def by (rule borderSide_distinct)
    show "\<And>k. k \<in> fst ` set (borderTop s) \<Longrightarrow> parse_index k = None"
      unfolding borderTop_def by (rule borderSide_index_free)
  qed
  show "build (Obj [(''borderBottom'', Str s)]) = Returns (Obj (borderBottom s))"
  proof (rule build_single_member [OF shorthand_table(10), where qs = "borderBottom s"])
    show "Returns (Obj (borderBottom s)) = Returns (Obj (borderBottom s))" ..
    show "distinct (map fst (borderBottom s))" unfolding borderBottom_def by (rule borderSide_distinct)
    show "\<And>k. k \<in> fst ` set (borderBottom s) \<Longrightarrow> parse_index k = None"
      unfolding borderBottom_def by (rule borderSide_index_free)
  qed
  let ?all = "borderSide s ''Left'' @ borderSide s ''Right'' @ borderSide s ''Top''
      @ borderSide s ''Bottom''"
  have "build (Obj [(''border'', Str s)]) = Returns (Obj ?all)"
  proof (rule build_single_member [OF shorthand_table(11)])
    show "border s = Returns (Obj ?all)" by (rule border_concat)
    show "distinct (map fst ?all)" by (rule four_sides_distinct)
    fix k assume "k \<in> fst ` set ?all"
    then consider "k \<in> fst ` set (borderSide s ''Left'')" | "k \<in> fst ` set (borderSide s ''Right'')"
      | "k \<in> fst ` set (borderSide s ''Top'')" | "k \<in> fst ` set (borderSide s ''Bottom'')"
      by auto
    then show "parse_index k = None" by cases (rule borderSide_index_free, assumption)+
  qed
  then show "build (Obj [(''border'', Str s)]) = border s" by (simp add: border_concat)
qed

lemma build_single_plain:
  "this_member key = None \<Longrightarrow> key \<noteq> ''length'' \<Longrightarrow>
   build (Obj [(key, Str s)]) = Returns (Obj [(key, Str s)])"
  using this_member_proto by (auto simp: has_length_def set_prop_empty)

text \<open>
  C2, as the code has it. For a key that holds a string, \<open>build\<close> looks the key up on the
  builder. For each of the eleven shorthand names the lookup finds the expander of that
  name, whose returned mapping is merged into the object under construction; the key itself
  is not among the keys merged. For a key that names no property of the builder (none of its
  methods, helpers and \<open>build\<close> included, nor \<open>constructor\<close>, nor a property inherited from
  \<open>Object.prototype\<close>) the pair is stored unchanged. So a mapping of one shorthand is
  built into the mapping its expander returns, and a mapping of one such other key (not
  \<open>length\<close>) into itself.
\<close>

theorem string_entry_dispatch:
  "(this_member key = None \<longrightarrow>
      build_props newStyles ((key, Str s) # ps) =
        and_then (put newStyles key (Str s)) (\<lambda>t. build_props t ps)) \<and>
   (\<forall>method. this_member key = Some method \<longrightarrow>
      build_props newStyles ((key, Str s) # ps) =
        and_then (and_then (method s) (assign newStyles)) (\<lambda>t. build_props t ps)) \<and>
   (\<forall>method r. this_member key = Some method \<and> method s = Returns r \<longrightarrow>
      key \<notin> fst ` set (own_entries r)) \<and>
   this_member ''margin'' = Some (\<lambda>value. Returns (Obj (margin value))) \<and>
   this_member ''padding'' = Some (\<lambda>value. Returns (Obj (padding value))) \<and>
   this_member ''borderRadius'' = Some (\<lambda>value. Returns (Obj (borderRadius value))) \<and>
   this_member ''borderStyle'' = Some (\<lambda>value. Returns (Obj (borderStyle value))) \<and>
   this_member ''borderColor'' = Some (\<lambda>value. Returns (Obj (borderColor value))) \<and>
   this_member ''borderWidth'' = Some (\<lambda>value. Returns (Obj (borderWidth value))) \<and>
   this_member ''borderLeft'' = Some (\<lambda>value. Returns (Obj (borderLeft value))) \<and>
   this_member ''borderRight'' = Some (\<lambda>value. Returns (Obj (borderRight value))) \<and>
   this_member ''borderTop'' = Some (\<lambda>value. Returns (Obj (borderTop value))) \<and>
   this_member ''borderBottom'' = Some (\<lambda>value. Returns (Obj (borderBottom value))) \<and>
   this_member ''border'' = Some border \<and>
   (this_member key = None) =
     (key \<notin> set [''_explodeToFour'', ''_applyFour'', ''_applyFourCorner'', ''applyPX'', ''margin'',
        ''padding'', ''borderRadius'', ''borderStyle'', ''borderColor'', ''borderWidth'',
        ''borderSide'', ''borderLeft'', ''borderRight'', ''borderTop'', ''borderBottom'', ''border'',
        ''build'', ''constructor'', ''hasOwnProperty'', ''isPrototypeOf'', ''propertyIsEnumerable'',
        ''toString'', ''toLocaleString'', ''valueOf'', ''__defineGetter__'', ''__defineSetter__'',
        ''__lookupGetter__'', ''__lookupSetter__'', ''__proto__'']) \<and>
   build (Obj [(''margin'', Str s)]) = Returns (Obj (margin s)) \<and>
   build (Obj [(''padding'', Str s)]) = Returns (Obj (padding s)) \<and>
   build (Obj [(''borderRadius'', Str s)]) = Returns (Obj (borderRadius s)) \<and>
   build (Obj [(''borderStyle'', Str s)]) = Returns (Obj (borderStyle s)) \<and>
   build (Obj [(''borderColor'', Str s)]) = Returns (Obj (borderColor s)) \<and>
   build (Obj [(''borderWidth'', Str s)]) = Returns (Obj (borderWidth s)) \<and>
   build (Obj [(''borderLeft'', Str s)]) = Returns (Obj (borderLeft s)) \<and>
   build (Obj [(''borderRight'', Str s)]) = Returns (Obj (borderRight s)) \<and>
   build (Obj [(''borderTop'', Str s)]) = Returns (Obj (borderTop s)) \<and>
   build (Obj [(''borderBottom'', Str s)]) = Returns (Obj (borderBottom s)) \<and>
   build (Obj [(''border'', Str s)]) = border s \<and>
   (this_member key = None \<and> key \<noteq> ''length'' \<longrightarrow>
      build (Obj [(key, Str s)]) = Returns (Obj [(key, Str s)]))"
proof -
  have a: "this_member key = None \<longrightarrow>
      build_props newStyles ((key, Str s) # ps) =
        and_then (put newStyles key (Str s)) (\<lambda>t. build_props t ps)"
    by simp
  have b: "\<forall>method. this_member key = Some method \<longrightarrow>
      build_props newStyles ((key, Str s) # ps) =
        and_then (and_then (method s) (assign newStyles)) (\<lambda>t. build_props t ps)"
    by simp
  have c: "\<forall>method r. this_member key = Some method \<and> method s = Returns r \<longrightarrow>
      key \<notin> fst ` set (own_entries r)"
    using member_key_dropped by blast
  have d: "(this_member key = None) =
     (key \<notin> set [''_explodeToFour'', ''_applyFour'', ''_applyFourCorner'', ''applyPX'', ''margin'',
        ''padding'', ''borderRadius'', ''borderStyle'', ''borderColor'', ''borderWidth'',
        ''borderSide'', ''borderLeft'', ''borderRight'', ''borderTop'', ''borderBottom'', ''border'',
        ''build'', ''constructor'', ''hasOwnProperty'', ''isPrototypeOf'', ''propertyIsEnumerable'',
        ''toString'', ''toLocaleString'', ''valueOf'', ''__defineGetter__'', ''__defineSetter__'',
        ''__lookupGetter__'', ''__lookupSetter__'', ''__proto__''])"
    unfolding this_member_None member_names ..
  have e: "this_member key = None \<and> key \<noteq> ''length'' \<longrightarrow>
      build (Obj [(key, Str s)]) = Returns (Obj [(key, Str s)])"
    using build_single_plain by blast
  from a b c d e shorthand_table build_single_shorthand [of s] show ?thesis by (intro conjI)
qed

text \<open>
  The key \<open>borderSide\<close> is outside the eleven names and holds a string, and it is not
  copied: the lookup finds the method \<open>borderSide\<close>, which is called without a side.
\<close>

theorem helper_key_counterexample:
  "build (Obj [(''borderSide'', Str ''solid'')]) =
     Returns (Obj [(''borderundefinedWidth'', Str ''initial''),
                   (''borderundefinedStyle'', Str ''solid''),
                   (''borderundefinedColor'', Str ''initial'')])"
proof -
  have "this_member ''borderSide'' = Some (\<lambda>value. Returns (Obj (borderSide value ''undefined'')))"
    by (simp add: this_member_def members_def)
  moreover have "''solid'' \<in> set borderStyles" by (simp add: borderStyles_def)
  ultimately show ?thesis
    by (simp add: has_length_def borderSide_keyword assign_def set_prop_named)
qed

theorem string_entry_dispatch_witness:
  "build_props (Obj []) [(''margin'', Str ''1px 2px''), (''color'', Str ''blue'')] =
     Returns (Obj [(''marginTop'', Str ''1px''), (''marginRight'', Str ''2px''),
                   (''marginBottom'', Str ''1px''), (''marginLeft'', Str ''2px''),
                   (''color'', Str ''blue'')])"
  using string_entry_dispatch [where key = "''margin''" and newStyles = "Obj []"
      and s = "''1px 2px''" and ps = "[(''color'', Str ''blue'')]"]
    string_entry_dispatch [where key = "''color''"]
  by (simp add: margin_def applyFour_entries explodeToFour_def or_empty_def at_def assign_def
      set_prop_named parse_index_nondigit is_digit_def)

subsection \<open>Arrays, holes and the shape of the result\<close>

lemma strip_length: "length (strip es) \<le> length es"
proof (induction es)
  case Nil
  then show ?case by simp
next
  case (Cons x es)
  then show ?case by (cases x) auto
qed

lemma strip_nth: "i < length (strip es) \<Longrightarrow> strip es ! i = es ! i"
proof (induction es arbitrary: i)
  case Nil
  then show ?case by simp
next
  case (Cons x es)
  then show ?case by (cases x; cases i) (auto split: if_splits)
qed

lemma strip_id: "(strip es = es) = (es = [] \<or> last es \<noteq> None)"
proof (induction es)
  case Nil
  then show ?case by simp
next
  case (Cons x es)
  then show ?case by (cases x) auto
qed

lemma strip_dense: "strip (map Some xs) = map Some xs"
  by (induction xs) auto

lemma build_elems_shape:
  "build_elems es = Returns ys \<Longrightarrow>
   length ys = length (strip es) \<and>
   (\<forall>i<length ys. (es ! i = None \<and> ys ! i = None) \<or>
      (\<exists>e w. es ! i = Some e \<and> stored e = Returns w \<and> ys ! i = Some w))"
proof (induction es arbitrary: ys)
  case Nil
  then show ?case by simp
next
  case (Cons x es)
  show ?case
  proof (cases x)
    case None
    from Cons.prems obtain zs where zs: "build_elems es = Returns zs"
      and ys: "ys = (if zs = [] then [] else None # zs)"
      by (cases "build_elems es") (auto simp: None)
    from Cons.IH [OF zs] have len: "length zs = length (strip es)"
      and each: "\<forall>i<length zs. (es ! i = None \<and> zs ! i = None) \<or>
        (\<exists>e w. es ! i = Some e \<and> stored e = Returns w \<and> zs ! i = Some w)"
      by simp_all
    from len have empty: "(zs = []) = (strip es = [])" by (metis length_0_conv)
    show ?thesis
    proof (cases "zs = []")
      case True
      with ys empty show ?thesis by (simp add: None)
    next
      case False
      with ys empty len each show ?thesis by (auto simp: None nth_Cons split: nat.splits)
    qed
  next
    case (Some v)
    from Cons.prems obtain w zs where w: "stored v = Returns w" and zs: "build_elems es = Returns zs"
      and ys: "ys = Some w # zs"
      by (cases "stored v"; cases "build_elems es") (auto simp: Some)
    from Cons.IH [OF zs] have "length zs = length (strip es)"
      "\<forall>i<length zs. (es ! i = None \<and> zs ! i = None) \<or>
        (\<exists>e w. es ! i = Some e \<and> stored e = Returns w \<and> zs ! i = Some w)"
      by simp_all
    with w ys show ?thesis by (auto simp: Some nth_Cons split: nat.splits)
  qed
qed

lemma and_then_Returns:
  "and_then x f = Returns y \<Longrightarrow> \<exists>z. x = Returns z \<and> f z = Returns y"
  by (cases x) auto

lemma put_obj_shape: "put (Obj acc) k v = Returns t \<Longrightarrow> \<exists>qs. t = Obj qs"
  by (auto split: if_splits)

lemma put_arr_shape: "put (Arr es qs) k v = Returns t \<Longrightarrow> \<exists>es' qs'. t = Arr es' qs'"
  by (auto split: if_splits option.splits dest!: and_then_Returns)

lemma put_all_obj_shape: "put_all (Obj acc) es = Returns t \<Longrightarrow> \<exists>qs. t = Obj qs"
proof (induction es arbitrary: acc)
  case Nil
  then show ?case by auto
next
  case (Cons e es)
  obtain k v where e: "e = (k, v)" by (cases e)
  from Cons.prems obtain t' where t': "put (Obj acc) k v = Returns t'" and r: "put_all t' es = Returns t"
    by (cases "put (Obj acc) k v") (auto simp: e)
  from put_obj_shape [OF t'] obtain qs where "t' = Obj qs" ..
  with r Cons.IH show ?case by blast
qed

lemma put_all_arr_shape: "put_all (Arr xs qs) es = Returns t \<Longrightarrow> \<exists>xs' qs'. t = Arr xs' qs'"
proof (induction es arbitrary: xs qs)
  case Nil
  then show ?case by auto
next
  case (Cons e es)
  obtain k v where e: "e = (k, v)" by (cases e)
  from Cons.prems obtain t' where t': "put (Arr xs qs) k v = Returns t'" and r: "put_all t' es = Returns t"
    by (cases "put (Arr xs qs) k v") (auto simp: e)
  from put_arr_shape [OF t'] obtain xs' qs' where "t' = Arr xs' qs'" by blast
  with r Cons.IH show ?case by blast
qed

lemma entry_step_cases:
  assumes "build_props t ((k, v) # ps) = Returns r"
  obtains t' where "build_props t' ps = Returns r"
    and "(\<exists>w. put t k w = Returns t') \<or> (\<exists>src. assign t src = Returns t')"
proof -
  from assms obtain t' where
    step: "(case v of
          Str s \<Rightarrow>
            (case this_member k of
               Some method \<Rightarrow> and_then (method s) (assign t)
             | None \<Rightarrow> put t k v)
        | _ \<Rightarrow> and_then (stored v) (put t k)) = Returns t'"
    and rest: "build_props t' ps = Returns r"
    by (auto dest!: and_then_Returns)
  have "(\<exists>w. put t k w = Returns t') \<or> (\<exists>src. assign t src = Returns t')"
  proof (cases v)
    case (Str s)
    with step show ?thesis
      by (cases "this_member k") (auto dest!: and_then_Returns)
  qed (use step in \<open>auto dest!: and_then_Returns\<close>)
  with rest show ?thesis using that by blast
qed

lemma build_props_obj_shape: "build_props (Obj acc) ps = Returns r \<Longrightarrow> \<exists>qs. r = Obj qs"
proof (induction ps arbitrary: acc)
  case Nil
  then show ?case by auto
next
  case (Cons e ps)
  obtain k v where e: "e = (k, v)" by (cases e)
  from Cons.prems [unfolded e] obtain t' where rest: "build_props t' ps = Returns r"
    and how: "(\<exists>w. put (Obj acc) k w = Returns t') \<or> (\<exists>src. assign (Obj acc) src = Returns t')"
    by (rule entry_step_cases)
  from how have "\<exists>qs. t' = Obj qs"
    using put_obj_shape put_all_obj_shape unfolding assign_def by blast
  with rest Cons.IH show ?case by blast
qed

lemma build_props_arr_shape:
  "build_props (Arr xs qs) ps = Returns r \<Longrightarrow> \<exists>ys qs'. r = Arr ys qs'"
proof (induction ps arbitrary: xs qs)
  case Nil
  then show ?case by auto
next
  case (Cons e ps)
  obtain k v where e: "e = (k, v)" by (cases e)
  from Cons.prems [unfolded e] obtain t' where rest: "build_props t' ps = Returns r"
    and how: "(\<exists>w. put (Arr xs qs) k w = Returns t') \<or> (\<exists>src. assign (Arr xs qs) src = Returns t')"
    by (rule entry_step_cases)
  from how have "\<exists>ys qs'. t' = Arr ys qs'"
    using put_arr_shape put_all_arr_shape unfolding assign_def by blast
  with rest Cons.IH show ?case by blast
qed

lemma member_safe_returns:
  assumes "this_member k = Some m"
    and "k \<notin> set [''applyPX'', ''constructor'', ''__defineGetter__'', ''__defineSetter__'', ''__proto__'']"
  shows "\<exists>r. m s = Returns r"
proof -
  have "\<forall>e\<in>set members.
          fst e \<notin> set [''applyPX'', ''constructor'', ''__defineGetter__'', ''__defineSetter__'', ''__proto__'']
          \<longrightarrow> (\<exists>r. snd e s = Returns r)"
    unfolding members_def by (simp add: border_concat build_string_def)
  moreover have "(k, m) \<in> set members"
    using assms(1) unfolding this_member_def by (rule map_of_SomeD)
  ultimately show ?thesis using assms(2) by force
qed

lemma put_all_plain:
  "list_all plain_entry es \<Longrightarrow> \<exists>qs. put_all (Obj acc) es = Returns (Obj qs)"
proof (induction es arbitrary: acc)
  case Nil
  then show ?case by simp
next
  case (Cons e es)
  obtain k v where e: "e = (k, v)" by (cases e)
  from Cons.prems have "k \<noteq> ''__proto__''" and rest: "list_all plain_entry es"
    using plain_not_proto by (auto simp: e)
  then have "put (Obj acc) k v = Returns (Obj (set_prop acc k v))" by simp
  moreover from Cons.IH [OF rest] obtain qs where
    "put_all (Obj (set_prop acc k v)) es = Returns (Obj qs)" by blast
  ultimately show ?case by (simp add: e)
qed

lemma flat_style_builds:
  "flat_style ps \<Longrightarrow> \<exists>qs. build_props (Obj acc) ps = Returns (Obj qs)"
proof (induction ps arbitrary: acc)
  case Nil
  then show ?case by simp
next
  case (Cons e ps)
  obtain k v where e: "e = (k, v)" by (cases e)
  from Cons.prems obtain s where v: "v = Str s"
    and k: "k \<notin> set [''applyPX'', ''constructor'', ''__defineGetter__'', ''__defineSetter__'',
                    ''__proto__'', ''length'']"
    and rest: "flat_style ps"
    by (cases v) (auto simp: flat_style_def e)
  have "\<exists>qs. (case this_member k of
                Some method \<Rightarrow> and_then (method s) (assign (Obj acc))
              | None \<Rightarrow> put (Obj acc) k (Str s)) = Returns (Obj qs)"
  proof (cases "this_member k")
    case None
    with k show ?thesis by simp
  next
    case (Some m)
    from k have "k \<notin> set [''applyPX'', ''constructor'', ''__defineGetter__'', ''__defineSetter__'',
        ''__proto__'']" by simp
    from member_safe_returns [OF Some this] obtain r where r: "m s = Returns r" ..
    from put_all_plain [OF member_returns [OF Some r]]
    obtain qs where "assign (Obj acc) r = Returns (Obj qs)" unfolding assign_def by blast
    with Some r show ?thesis by simp
  qed
  then obtain qs where
    step: "(case this_member k of
                Some method \<Rightarrow> and_then (method s) (assign (Obj acc))
              | None \<Rightarrow> put (Obj acc) k (Str s)) = Returns (Obj qs)" ..
  from Cons.IH [OF rest] obtain qs' where "build_props (Obj qs) ps = Returns (Obj qs')" by blast
  with step show ?case by (simp add: e v)
qed

lemma flat_no_length: "flat_style ps \<Longrightarrow> \<not> has_length ps"
proof -
  assume "flat_style ps"
  then have "''length'' \<notin> fst ` set ps"
    by (auto simp: flat_style_def list_all_iff)
  then have "map_of ps ''length'' = None" by (simp add: map_of_eq_None_iff)
  then show ?thesis by (simp add: has_length_def)
qed

lemma flat_array_builds:
  "\<forall>x\<in>set xs. \<exists>ps. x = Obj ps \<and> flat_style ps \<Longrightarrow>
   \<exists>ys. build_elems (map Some xs) = Returns (map Some ys) \<and> length ys = length xs \<and>
     (\<forall>i<length xs. build (xs ! i) = Returns (ys ! i))"
proof (induction xs)
  case Nil
  then show ?case by simp
next
  case (Cons x xs)
  from Cons.prems obtain ps where x: "x = Obj ps" and f: "flat_style ps" by auto
  from flat_style_builds [OF f] obtain qs where q: "build_props (Obj []) ps = Returns (Obj qs)"
    by blast
  from Cons.IH Cons.prems obtain ys where ys: "build_elems (map Some xs) = Returns (map Some ys)"
    "length ys = length xs" "\<forall>i<length xs. build (xs ! i) = Returns (ys ! i)" by auto
  have "build_elems (map Some (x # xs)) = Returns (map Some (Obj qs # ys))"
    using q ys(1) flat_no_length [OF f] by (simp add: x)
  moreover have "\<forall>i<length (x # xs). build ((x # xs) ! i) = Returns ((Obj qs # ys) ! i)"
    using q ys(3) flat_no_length [OF f] by (auto simp: x nth_Cons split: nat.splits)
  moreover have "length (Obj qs # ys) = length (x # xs)" using ys(2) by simp
  ultimately show ?case by blast
qed

text \<open>
  C6, as the code has it. When \<open>build\<close> of an array without named properties returns,
  it returns such an array. Its length is that of the input without the holes at its
  end: the same length when the input is empty or does not end in a hole. A hole of the
  input is a hole of the result, and element \<open>i\<close> of the result is what the loop body
  stores for element \<open>i\<close>: \<open>build\<close> of it for a mapping without a length, the array of
  its built elements for an array without named properties, the element itself for a
  string, a number, a boolean and \<open>undefined\<close>. \<open>build\<close> of any array returns an array.
  When \<open>build\<close> of a mapping returns, it returns a mapping if the mapping has no
  \<open>length\<close> (or an undefined one) and an array if it has one. \<open>build\<close> does return on a
  flat style mapping, and on an array without holes of flat style mappings it returns
  the array without holes of the built elements, in order.
\<close>

theorem build_mirrors_shape:
  "(build (Arr es []) = Returns r \<longrightarrow>
      (\<exists>ys. r = Arr ys [] \<and> length ys = length (strip es) \<and>
         (\<forall>i<length ys. (es ! i = None \<and> ys ! i = None) \<or>
            (\<exists>e w. es ! i = Some e \<and> stored e = Returns w \<and> ys ! i = Some w)))) \<and>
   length (strip es) \<le> length es \<and>
   (strip es = es) = (es = [] \<or> last es \<noteq> None) \<and>
   (build (Arr es qs) = Returns r \<longrightarrow> (\<exists>ys qs'. r = Arr ys qs')) \<and>
   (\<not> has_length ps \<longrightarrow> stored (Obj ps) = build (Obj ps)) \<and>
   stored (Arr es []) = and_then (build_each es) (\<lambda>ws. Returns (Arr ws [])) \<and>
   stored (Str s) = Returns (Str s) \<and>
   stored (Num n) = Returns (Num n) \<and>
   stored (Bool b) = Returns (Bool b) \<and>
   stored Undefined = Returns Undefined \<and>
   (\<not> has_length ps \<and> build (Obj ps) = Returns r \<longrightarrow> (\<exists>qs. r = Obj qs)) \<and>
   (has_length ps \<and> build (Obj ps) = Returns r \<longrightarrow> (\<exists>ys qs. r = Arr ys qs)) \<and>
   (flat_style ps \<longrightarrow> \<not> has_length ps \<and> (\<exists>qs. build (Obj ps) = Returns (Obj qs))) \<and>
   ((\<forall>x\<in>set xs. \<exists>ps. x = Obj ps \<and> flat_style ps) \<longrightarrow>
      (\<exists>ys. build (dense xs) = Returns (dense ys) \<and> length ys = length xs \<and>
         (\<forall>i<length xs. build (xs ! i) = Returns (ys ! i))))"
proof (intro conjI impI)
  assume "build (Arr es []) = Returns r"
  then obtain ys where "build_elems es = Returns ys" "r = Arr ys []"
    by (cases "build_elems es") auto
  with build_elems_shape [of es ys]
  show "\<exists>ys. r = Arr ys [] \<and> length ys = length (strip es) \<and>
         (\<forall>i<length ys. (es ! i = None \<and> ys ! i = None) \<or>
            (\<exists>e w. es ! i = Some e \<and> stored e = Returns w \<and> ys ! i = Some w))" by simp
next
  show "length (strip es) \<le> length es" by (rule strip_length)
next
  show "(strip es = es) = (es = [] \<or> last es \<noteq> None)" by (rule strip_id)
next
  assume "build (Arr es qs) = Returns r"
  then obtain ys where "build_props (Arr ys []) qs = Returns r"
    by (auto dest!: and_then_Returns)
  then show "\<exists>ys qs'. r = Arr ys qs'" by (rule build_props_arr_shape)
next
  assume "\<not> has_length ps"
  then show "stored (Obj ps) = build (Obj ps)" by simp
next
  show "stored (Arr es []) = and_then (build_each es) (\<lambda>ws. Returns (Arr ws []))" by simp
next
  show "stored (Str s) = Returns (Str s)" by simp
next
  show "stored (Num n) = Returns (Num n)" by simp
next
  show "stored (Bool b) = Returns (Bool b)" by simp
next
  show "stored Undefined = Returns Undefined" by simp
next
  assume "\<not> has_length ps \<and> build (Obj ps) = Returns r"
  then show "\<exists>qs. r = Obj qs" using build_props_obj_shape [of "[]" ps r] by auto
next
  assume "has_length ps \<and> build (Obj ps) = Returns r"
  then show "\<exists>ys qs. r = Arr ys qs" using build_props_arr_shape [of "[]" "[]" ps r] by auto
next
  assume "flat_style ps"
  then show "\<not> has_length ps" by (rule flat_no_length)
next
  assume f: "flat_style ps"
  from flat_style_builds [OF f, of "[]"] flat_no_length [OF f]
  show "\<exists>qs. build (Obj ps) = Returns (Obj qs)" by simp
next
  assume "\<forall>x\<in>set xs. \<exists>ps. x = Obj ps \<and> flat_style ps"
  from flat_array_builds [OF this]
  show "\<exists>ys. build (dense xs) = Returns (dense ys) \<and> length ys = length xs \<and>
         (\<forall>i<length xs. build (xs ! i) = Returns (ys ! i))" by (auto simp: dense_def)
qed

theorem build_mirrors_shape_witness:
  "flat_style [(''margin'', Str ''1px'')] \<and>
   (\<exists>ys. build (dense [Obj [(''margin'', Str ''1px'')]]) = Returns (dense ys) \<and> length ys = 1 \<and>
      build (Obj [(''margin'', Str ''1px'')]) = Returns (ys ! 0))"
proof -
  have f: "flat_style [(''margin'', Str ''1px'')]" by (simp add: flat_style_def)
  then have "\<forall>x\<in>set [Obj [(''margin'', Str ''1px'')]]. \<exists>ps. x = Obj ps \<and> flat_style ps"
    by simp
  with build_mirrors_shape [where xs = "[Obj [(''margin'', Str ''1px'')]]"]
  have "\<exists>ys. build (dense [Obj [(''margin'', Str ''1px'')]]) = Returns (dense ys) \<and>
          length ys = length [Obj [(''margin'', Str ''1px'')]] \<and>
          (\<forall>i<length [Obj [(''margin'', Str ''1px'')]].
              build ([Obj [(''margin'', Str ''1px'')]] ! i) = Returns (ys ! i))"
    by blast
  with f show ?thesis by auto
qed

text \<open>
  A mapping whose only key is \<open>length\<close> is built into an empty array; an array that ends
  in a hole is built into a shorter one; and a string in an array is stored as it is,
  where \<open>build\<close> of it would be the array of its characters.
\<close>

theorem length_key_counterexample:
  "build (Obj [(''length'', Num 0)]) = Returns (Arr [] []) \<and>
   build (Arr [Some (Str ''ab''), None] []) = Returns (Arr [Some (Str ''ab'')] []) \<and>
   build (Str ''ab'') = Returns (Arr [Some (Str ''a''), Some (Str ''b'')] [])"
  by (simp add: has_length_def as_length_def resize_def build_string_def dense_def chars_def)

subsection \<open>The loop over the indices of an array\<close>

text \<open>
  \<open>build\<close> of an array is the loop of \<open>build\<close> over the own keys of the array, run from
  the empty array: \<open>build_elems\<close> is what that loop does on the index keys. (No array is
  longer than \<open>2^32 - 1\<close>.)
\<close>

lemma digit_of_digit_char: "d < 10 \<Longrightarrow> digit_of (digit_char d) = int d"
proof -
  assume "d < 10"
  then have "d \<in> {0, 1, 2, 3, 4, 5, 6, 7, 8, 9}" by auto
  then show ?thesis
    by (elim insertE emptyE) (simp_all add: digit_of_def digit_char_def)
qed

lemma digits_value_snoc: "digits_value (s @ [c]) = 10 * digits_value s + digit_of c"
  by (simp add: digits_value_def)

lemma index_key_value: "digits_value (index_key n) = int n"
proof (induction n rule: index_key.induct)
  case (1 n)
  show ?case
  proof (cases "n < 10")
    case True
    then show ?thesis
      by (subst index_key.simps) (simp add: digits_value_def digit_of_digit_char)
  next
    case False
    then have "digits_value (index_key (n div 10)) = int (n div 10)" by (rule "1.IH")
    moreover have "digit_of (digit_char (n mod 10)) = int (n mod 10)"
      by (rule digit_of_digit_char) simp
    ultimately have "digits_value (index_key n) = 10 * int (n div 10) + int (n mod 10)"
      using False by (subst index_key.simps) (simp add: digits_value_snoc)
    moreover have "int (10 * (n div 10) + n mod 10) = int n" by simp
    ultimately show ?thesis by (simp only: of_nat_add of_nat_mult of_nat_numeral)
  qed
qed

lemma index_key_nonempty: "index_key n \<noteq> []"
  by (subst index_key.simps) simp

lemma digit_char_zero: "d < 10 \<Longrightarrow> (digit_char d = CHR ''0'') = (d = 0)"
proof -
  assume "d < 10"
  then have "d \<in> {0, 1, 2, 3, 4, 5, 6, 7, 8, 9}" by auto
  then show ?thesis
    by (elim insertE emptyE) (simp_all add: digit_char_def)
qed

lemma index_key_canonical: "0 < n \<Longrightarrow> hd (index_key n) \<noteq> CHR ''0''"
proof (induction n rule: index_key.induct)
  case (1 n)
  show ?case
  proof (cases "n < 10")
    case True
    with "1.prems" show ?thesis
      by (subst index_key.simps) (simp add: digit_char_zero)
  next
    case False
    then have "0 < n div 10" by simp
    with False have "hd (index_key (n div 10)) \<noteq> CHR ''0''" by (intro "1.IH")
    with False show ?thesis
      by (subst index_key.simps) (simp add: index_key_nonempty)
  qed
qed

lemma index_key_zero: "index_key 0 = ''0''"
  by (subst index_key.simps) (simp add: digit_char_def)

lemma parse_index_key: "int n < 4294967295 \<Longrightarrow> parse_index (index_key n) = Some n"
proof (cases "n = 0")
  case True
  then show ?thesis
    by (simp add: parse_index_def index_key_zero is_digit_def digits_value_def digit_of_def)
next
  case False
  assume "int n < 4294967295"
  with False show ?thesis
    by (simp add: parse_index_def index_key_nonempty index_key_digits index_key_canonical
        index_key_value)
qed

lemma index_key_not_proto: "index_key n \<noteq> ''__proto__''"
proof
  assume "index_key n = ''__proto__''"
  with index_key_digits [of n] show False by (simp add: is_digit_def)
qed

lemma put_index:
  "int i < 4294967295 \<Longrightarrow> length acc \<le> i \<Longrightarrow>
   put (Arr acc qs) (index_key i) w = Returns (Arr (acc @ replicate (i - length acc) None @ [Some w]) qs)"
  by (simp add: index_key_not_proto index_key_not_length parse_index_key store_at_def)

lemma index_step:
  "(case v of
      Str s \<Rightarrow>
        (case this_member (index_key i) of
           Some method \<Rightarrow> and_then (method s) (assign t)
         | None \<Rightarrow> put t (index_key i) v)
    | _ \<Rightarrow> and_then (stored v) (put t (index_key i))) = and_then (stored v) (put t (index_key i))"
  by (cases v) (simp_all add: index_key_free)

lemma build_elems_loop:
  "length acc \<le> i \<Longrightarrow> int (i + length es) \<le> 4294967295 \<Longrightarrow>
   build_props (Arr acc qs) (present_from i es) =
     and_then (build_elems es) (\<lambda>ys.
       Returns (Arr (if ys = [] then acc else acc @ replicate (i - length acc) None @ ys) qs))"
proof (induction es arbitrary: i acc)
  case Nil
  then show ?case by simp
next
  case (Cons x es)
  show ?case
  proof (cases x)
    case None
    from Cons.prems have "length acc \<le> Suc i" "int (Suc i + length es) \<le> 4294967295" by simp_all
    from Cons.IH [OF this]
    have ih: "build_props (Arr acc qs) (present_from (Suc i) es) =
      and_then (build_elems es) (\<lambda>ys.
        Returns (Arr (if ys = [] then acc else acc @ replicate (Suc i - length acc) None @ ys) qs))" .
    from Cons.prems(1) have "Suc i - length acc = Suc (i - length acc)"
      by (simp add: Suc_diff_le)
    with ih show ?thesis
      by (cases "build_elems es") (simp_all add: None replicate_app_Cons_same)
  next
    case (Some v)
    from Cons.prems have bound: "int i < 4294967295" by simp
    show ?thesis
    proof (cases "stored v")
      case (Returns w)
      let ?acc = "acc @ replicate (i - length acc) None @ [Some w]"
      from Cons.prems have "length ?acc \<le> Suc i" "int (Suc i + length es) \<le> 4294967295" by simp_all
      from Cons.IH [OF this]
      have ih: "build_props (Arr ?acc qs) (present_from (Suc i) es) =
        and_then (build_elems es) (\<lambda>ys. Returns (Arr (?acc @ ys) qs))"
        using Cons.prems(1) by (cases "build_elems es") simp_all
      have "build_props (Arr acc qs) (present_from i (x # es)) =
          build_props (Arr ?acc qs) (present_from (Suc i) es)"
        using Returns put_index [OF bound Cons.prems(1), of qs w]
        by (simp add: Some index_step del: put.simps)
      with ih Returns show ?thesis by (cases "build_elems es") (simp_all add: Some)
    next
      case (Throws e)
      then show ?thesis by (simp add: Some index_step del: put.simps)
    next
      case Unmodelled
      then show ?thesis by (simp add: Some index_step del: put.simps)
    qed
  qed
qed

lemma build_props_append:
  "build_props t (ps @ qs) = and_then (build_props t ps) (\<lambda>t'. build_props t' qs)"
proof (induction ps arbitrary: t)
  case Nil
  then show ?case by simp
next
  case (Cons e ps)
  obtain k v where e: "e = (k, v)" by (cases e)
  let ?step = "case v of
          Str s \<Rightarrow>
            (case this_member k of
               Some method \<Rightarrow> and_then (method s) (assign t)
             | None \<Rightarrow> put t k v)
        | _ \<Rightarrow> and_then (stored v) (put t k)"
  show ?case
  proof (cases ?step)
    case (Returns t')
    with Cons.IH [of t'] show ?thesis by (simp add: e)
  qed (simp_all add: e)
qed

lemma build_array_is_loop:
  "int (length es) \<le> 4294967295 \<Longrightarrow>
   build (Arr es qs) = build_props (Arr [] []) (own_entries (Arr es qs))"
proof -
  assume "int (length es) \<le> 4294967295"
  then have "build_props (Arr [] []) (present_from 0 es) =
      and_then (build_elems es) (\<lambda>ys. Returns (Arr ys []))"
    using build_elems_loop [of "[]" 0 es "[]"] by (cases "build_elems es") simp_all
  then show ?thesis
    by (cases "build_elems es") (simp_all add: build_props_append)
qed

subsection \<open>The order of keys\<close>

lemma key_le_trans: "key_le a b \<Longrightarrow> key_le b c \<Longrightarrow> key_le a c"
  by (auto simp: key_le_def split: option.splits)

lemma key_le_named: "parse_index k = None \<Longrightarrow> key_le k' k"
  by (simp add: key_le_def split: option.splits)

lemma keys_insert_index: "set (map fst (insert_index i k v ps)) = insert k (set (map fst ps))"
proof (induction ps)
  case Nil
  then show ?case by simp
next
  case (Cons p ps)
  obtain k' v' where p: "p = (k', v')" by (cases p)
  show ?case
  proof (cases "\<exists>j. parse_index k' = Some j \<and> j \<le> i")
    case True
    then have "insert_index i k v (p # ps) = (k', v') # insert_index i k v ps"
      by (auto simp: p)
    with Cons.IH show ?thesis by (simp add: p insert_commute)
  next
    case False
    then have "insert_index i k v (p # ps) = (k, v) # (k', v') # ps"
      by (auto simp: p split: option.splits)
    then show ?thesis by (simp add: p)
  qed
qed

lemma set_insert_index: "fst ` set (insert_index i k v ps) = insert k (fst ` set ps)"
  using keys_insert_index [of i k v ps] by simp

lemma distinct_insert_index:
  "distinct (map fst ps) \<Longrightarrow> k \<notin> fst ` set ps \<Longrightarrow> distinct (map fst (insert_index i k v ps))"
proof (induction ps)
  case Nil
  then show ?case by simp
next
  case (Cons p ps)
  then have "fst p \<notin> fst ` set (insert_index i k v ps)"
    by (auto simp: set_insert_index)
  with Cons show ?case by (cases p) (auto split: option.splits)
qed

lemma sorted_insert_index:
  "sorted_wrt key_le (map fst ps) \<Longrightarrow> parse_index k = Some i \<Longrightarrow>
   sorted_wrt key_le (map fst (insert_index i k v ps))"
proof (induction ps)
  case Nil
  then show ?case by simp
next
  case (Cons p ps)
  obtain k' v' where p: "p = (k', v')" by (cases p)
  show ?case
  proof (cases "\<exists>j. parse_index k' = Some j \<and> j \<le> i")
    case True
    then have here: "insert_index i k v (p # ps) = (k', v') # insert_index i k v ps"
      by (auto simp: p)
    from True Cons.prems(2) have "key_le k' k" by (auto simp: key_le_def)
    moreover from Cons.prems(1) have "\<forall>x\<in>fst ` set ps. key_le k' x" by (auto simp: p)
    ultimately have "\<forall>x\<in>fst ` set (insert_index i k v ps). key_le k' x"
      by (simp add: set_insert_index)
    moreover have "sorted_wrt key_le (map fst (insert_index i k v ps))"
      using Cons by simp
    ultimately show ?thesis unfolding here by simp
  next
    case False
    then have here: "insert_index i k v (p # ps) = (k, v) # (k', v') # ps"
      by (auto simp: p split: option.splits)
    from False Cons.prems(2) have first: "key_le k k'"
      by (auto simp: key_le_def split: option.splits)
    from Cons.prems(1) have "\<forall>x\<in>fst ` set ps. key_le k' x" by (auto simp: p)
    with first have "\<forall>x\<in>fst ` set ps. key_le k x" using key_le_trans by blast
    with first Cons.prems(1) show ?thesis unfolding here by (simp add: p)
  qed
qed

lemma keys_update_present:
  "k \<in> fst ` set ps \<Longrightarrow> map fst (AList.update k v ps) = map fst ps"
  by (simp add: update_keys)

lemma set_prop_keys: "fst ` set (set_prop ps k v) = insert k (fst ` set ps)"
proof (cases "k \<in> fst ` set ps")
  case True
  then have "map fst (set_prop ps k v) = map fst ps"
    by (simp add: set_prop_def keys_update_present)
  then have "set (map fst (set_prop ps k v)) = set (map fst ps)" by simp
  with True show ?thesis by auto
next
  case False
  then show ?thesis
    by (auto simp: set_prop_def set_insert_index split: option.splits)
qed

lemma set_prop_distinct: "distinct (map fst ps) \<Longrightarrow> distinct (map fst (set_prop ps k v))"
  by (auto simp: set_prop_def keys_update_present distinct_insert_index split: option.splits)

lemma set_prop_order: "key_order (map fst ps) \<Longrightarrow> key_order (map fst (set_prop ps k v))"
  unfolding key_order_def
  by (auto simp: set_prop_def keys_update_present sorted_insert_index sorted_wrt_append key_le_named
      split: option.splits)

lemma insert_index_last:
  "\<forall>k'\<in>fst ` set ps. \<exists>j. parse_index k' = Some j \<and> j \<le> i \<Longrightarrow>
   insert_index i k v ps = ps @ [(k, v)]"
  by (induction ps) auto

lemma set_prop_last:
  assumes "key_order (map fst (ps @ [(k, v)]))" and "k \<notin> fst ` set ps"
  shows "set_prop ps k v = ps @ [(k, v)]"
proof (cases "parse_index k")
  case None
  with assms(2) show ?thesis by (simp add: set_prop_def)
next
  case (Some i)
  from assms(1) have "\<forall>k'\<in>fst ` set ps. key_le k' k"
    by (auto simp: key_order_def sorted_wrt_append)
  with Some have "\<forall>k'\<in>fst ` set ps. \<exists>j. parse_index k' = Some j \<and> j \<le> i"
    by (auto simp: key_le_def split: option.splits)
  then have "insert_index i k v ps = ps @ [(k, v)]" by (rule insert_index_last)
  with Some assms(2) show ?thesis by (simp add: set_prop_def)
qed

lemma map_of_insert_index:
  "k \<notin> fst ` set ps \<Longrightarrow> map_of (insert_index i k v ps) = (map_of ps)(k \<mapsto> v)"
proof (induction ps)
  case Nil
  then show ?case by simp
next
  case (Cons p ps)
  then show ?case by (cases p) (auto split: option.splits)
qed

lemma map_of_snoc: "k \<notin> fst ` set ps \<Longrightarrow> map_of (ps @ [(k, v)]) = (map_of ps)(k \<mapsto> v)"
  by (induction ps) auto

lemma map_of_set_prop: "map_of (set_prop ps k v) = (map_of ps)(k \<mapsto> v)"
  by (auto simp: set_prop_def update_conv' map_of_insert_index map_of_snoc
      simp del: map_of_append split: option.splits)


subsection \<open>Building what was built\<close>

lemma trim_props_keys: "map fst (trim_props ps) = map fst ps"
  by (induction ps) auto

lemma trim_stored_Undefined: "(trim_stored v = Undefined) = (v = Undefined)"
  by (cases v) simp_all

lemma map_of_trim_props: "map_of (trim_props ps) k = map_option trim_stored (map_of ps k)"
  by (induction ps) auto

lemma has_length_trim_props: "has_length (trim_props ps) = has_length ps"
  by (simp add: has_length_def map_of_trim_props trim_stored_Undefined split: option.splits)

lemma trim_props_append: "trim_props (ps @ qs) = trim_props ps @ trim_props qs"
  by (induction ps) auto

lemma good_entry_step:
  assumes "good_entry (k, v)" and "put t k (trim_stored v) = Returns t'"
  shows "(case v of
          Str s \<Rightarrow>
            (case this_member k of
               Some method \<Rightarrow> and_then (method s) (assign t)
             | None \<Rightarrow> put t k v)
        | _ \<Rightarrow> and_then (stored v) (put t k)) = Returns t'"
proof -
  from assms(1) have g: "stored v = Returns (trim_stored v)" "\<And>s. v = Str s \<Longrightarrow> this_member k = None"
    by (simp_all add: good_entry_def settled_def)
  with assms(2) show ?thesis by (cases v) simp_all
qed

lemma replay:
  "distinct (map fst (acc @ ps)) \<Longrightarrow> key_order (map fst (acc @ ps)) \<Longrightarrow> list_all good_entry ps \<Longrightarrow>
   build_props (Obj acc) ps = Returns (Obj (acc @ trim_props ps))"
proof (induction ps arbitrary: acc)
  case Nil
  then show ?case by simp
next
  case (Cons e ps)
  obtain k v where e: "e = (k, v)" by (cases e)
  from Cons.prems(3) have ge: "good_entry (k, v)" and rest: "list_all good_entry ps"
    by (simp_all add: e)
  from ge have np: "k \<noteq> ''__proto__''" by (simp add: good_entry_def)
  have fresh: "k \<notin> fst ` set acc" using Cons.prems(1) by (auto simp: e)
  have "key_order (map fst (acc @ [(k, trim_stored v)]))"
    using Cons.prems(2) by (simp add: e key_order_def sorted_wrt_append)
  then have sp: "set_prop acc k (trim_stored v) = acc @ [(k, trim_stored v)]"
    using fresh by (rule set_prop_last)
  have "put (Obj acc) k (trim_stored v) = Returns (Obj (acc @ [(k, trim_stored v)]))"
    using np sp by simp
  note step = good_entry_step [OF ge this]
  have "build_props (Obj (acc @ [(k, trim_stored v)])) ps =
          Returns (Obj ((acc @ [(k, trim_stored v)]) @ trim_props ps))"
    using Cons.prems(1,2) rest by (intro Cons.IH) (simp_all add: e)
  with step show ?case by (simp add: e)
qed

lemma named_keys_append:
  "named_keys (map fst (acc @ (k, v) # qs)) \<Longrightarrow>
   k \<notin> fst ` set acc \<and> parse_index k = None \<and> k \<noteq> ''length'' \<and>
   named_keys (map fst ((acc @ [(k, w)]) @ qs))"
  by (auto simp: named_keys_def)

lemma replay_arr:
  "named_keys (map fst (acc @ qs)) \<Longrightarrow> list_all good_entry qs \<Longrightarrow>
   build_props (Arr zs acc) qs = Returns (Arr zs (acc @ trim_props qs))"
proof (induction qs arbitrary: acc)
  case Nil
  then show ?case by simp
next
  case (Cons e qs)
  obtain k v where e: "e = (k, v)" by (cases e)
  from Cons.prems(2) have ge: "good_entry (k, v)" and rest: "list_all good_entry qs"
    by (simp_all add: e)
  from ge have np: "k \<noteq> ''__proto__''" by (simp add: good_entry_def)
  from named_keys_append [OF Cons.prems(1) [unfolded e], of "trim_stored v"]
  have fresh: "k \<notin> fst ` set acc" and named: "parse_index k = None" and nl: "k \<noteq> ''length''"
    and nk: "named_keys (map fst ((acc @ [(k, trim_stored v)]) @ qs))"
    by simp_all
  have "put (Arr zs acc) k (trim_stored v) = Returns (Arr zs (acc @ [(k, trim_stored v)]))"
    using np nl named fresh by (simp add: set_prop_def)
  note step = good_entry_step [OF ge this]
  have "build_props (Arr zs (acc @ [(k, trim_stored v)])) qs =
          Returns (Arr zs ((acc @ [(k, trim_stored v)]) @ trim_props qs))"
    using nk rest by (rule Cons.IH)
  with step show ?case by (simp add: e)
qed

lemma build_elems_settled:
  "list_all settled_slot es \<Longrightarrow> build_elems es = Returns (strip (trim_stored_elems es))"
proof (induction es)
  case Nil
  then show ?case by simp
next
  case (Cons x es)
  then show ?case by (cases x) (simp_all add: settled_slot_def settled_def)
qed

lemma build_each_rebuilt:
  "list_all rebuilt_slot es \<Longrightarrow> build_each es = Returns (trim_built_elems es)"
proof (induction es)
  case Nil
  then show ?case by simp
next
  case (Cons x es)
  then show ?case by (cases x) (simp_all add: rebuilt_slot_def rebuilt_def)
qed

lemma good_rebuilt: "good r \<Longrightarrow> build r = Returns (trim_built r)"
proof (cases r)
  case (Obj acc)
  assume "good r"
  with Obj have "distinct (map fst ([] @ acc))" "key_order (map fst ([] @ acc))"
    "list_all good_entry acc" "\<not> has_length acc" by simp_all
  from replay [OF this(1,2,3)] this(4) show ?thesis by (simp add: Obj)
next
  case (Arr es qs)
  assume "good r"
  with Arr have "list_all settled_slot es" "named_keys (map fst ([] @ qs))" "list_all good_entry qs"
    by simp_all
  from build_elems_settled [OF this(1)] replay_arr [OF this(2,3)]
  show ?thesis by (simp add: Arr)
qed simp_all

lemma good_obj_settled: "good (Obj acc) \<Longrightarrow> settled (Obj acc)"
  using good_rebuilt [of "Obj acc"] by (simp add: settled_def)

subsection \<open>Expanded values\<close>

lemma expanded_good:
  "wellformed v \<longrightarrow> expanded v \<longrightarrow> good v \<and> trim_built v = v"
  "wellformed w \<longrightarrow> copied w \<longrightarrow> settled w \<and> trim_stored w = w"
  "wellformed_elems es \<longrightarrow> expanded_elems es \<longrightarrow> list_all rebuilt_slot es \<and> trim_built_elems es = es"
  "wellformed_elems ws \<longrightarrow> copied_elems ws \<longrightarrow> list_all settled_slot ws \<and> trim_stored_elems ws = ws"
  "wellformed_props ps \<longrightarrow> copied_props ps \<longrightarrow> list_all good_entry ps \<and> trim_props ps = ps"
proof (induction v and w and es and ws and ps
    rule: expanded_copied_expanded_elems_copied_elems_copied_props.induct)
  case (1 ps)
  then show ?case by (simp add: has_length_trim_props)
next
  case (2 es qs)
  then show ?case by (simp add: named_keys_def)
next
  case (10 ps)
  show ?case
  proof (intro impI)
    assume wf: "wellformed (Obj ps)" and c: "copied (Obj ps)"
    with 10 have "good (Obj ps)" and t: "trim_props ps = ps" by simp_all
    from good_obj_settled [OF this(1)] t show "settled (Obj ps) \<and> trim_stored (Obj ps) = Obj ps"
      by simp
  qed
next
  case (11 es qs)
  show ?case
  proof (intro impI)
    assume wf: "wellformed (Arr es qs)" and c: "copied (Arr es qs)"
    with 11 have q: "qs = []" and r: "list_all rebuilt_slot es" and t: "trim_built_elems es = es"
      by simp_all
    from build_each_rebuilt [OF r] t q
    show "settled (Arr es qs) \<and> trim_stored (Arr es qs) = Arr es qs"
      by (simp add: settled_def)
  qed
next
  case (21 v es)
  then show ?case using good_rebuilt [of v] by (simp add: rebuilt_slot_def rebuilt_def)
next
  case (26 k v ps)
  have ih: "wellformed v \<longrightarrow> copied v \<longrightarrow> settled v \<and> trim_stored v = v"
    if "\<not> (\<exists>s. v = Str s)"
    using that "26.IH"(1-8) by (cases v) auto
  show ?case
  proof (intro impI)
    assume wf: "wellformed_props ((k, v) # ps)" and c: "copied_props ((k, v) # ps)"
    have "settled v \<and> trim_stored v = v"
    proof (cases "\<exists>s. v = Str s")
      case True
      then show ?thesis by (auto simp: settled_def)
    next
      case False
      with c have "copied v" by (cases v) simp_all
      with ih [OF False] wf show ?thesis by simp
    qed
    moreover from c have "\<forall>s. v = Str s \<longrightarrow> this_member k = None" by auto
    ultimately have "good_entry (k, v)" "trim_stored v = v"
      using c by (simp_all add: good_entry_def)
    with "26.IH"(9) wf c show "list_all good_entry ((k, v) # ps) \<and> trim_props ((k, v) # ps) = (k, v) # ps"
      by simp
  qed
qed (simp_all add: settled_def settled_slot_def rebuilt_slot_def)

lemma expanded_unchanged: "wellformed v \<Longrightarrow> expanded v \<Longrightarrow> build v = Returns v"
  using expanded_good(1) [of v] good_rebuilt [of v] by simp

subsection \<open>What a step of the loop preserves\<close>

lemma object_map_fails: "object_map ps \<noteq> Returns r"
  by (simp add: object_map_def split: option.splits jsval.splits)

lemma stored_Str: "stored v = Returns (Str s) \<Longrightarrow> v = Str s"
  by (cases v) (auto simp: object_map_fails dest!: and_then_Returns build_props_obj_shape split: if_splits)

lemma set_update_subset: "set (AList.update k v ps) \<subseteq> insert (k, v) (set ps)"
  by (induction ps) auto

lemma set_insert_index_subset: "set (insert_index i k v ps) \<subseteq> insert (k, v) (set ps)"
  by (induction ps) (auto split: option.splits if_splits)

lemma set_set_prop_subset: "set (set_prop ps k v) \<subseteq> insert (k, v) (set ps)"
  using set_update_subset [of k v ps] set_insert_index_subset [of _ k v ps]
  by (auto simp: set_prop_def split: option.splits)

lemma has_length_set_prop:
  "has_length (set_prop ps k v) = (if k = ''length'' then v \<noteq> Undefined else has_length ps)"
  by (simp add: has_length_def map_of_set_prop)

lemma good_put_obj:
  assumes "good (Obj acc)" and "put (Obj acc) k w = Returns t'" and "settled w"
    and "\<And>s. w = Str s \<Longrightarrow> this_member k = None" and "k = ''length'' \<Longrightarrow> w = Undefined"
  shows "good t'"
proof (cases "k = ''__proto__''")
  case True
  with assms(1,2) show ?thesis by (auto split: if_splits)
next
  case False
  with assms(2) have t': "t' = Obj (set_prop acc k w)" by simp
  have "good_entry (k, w)" using False assms(3,4) by (simp add: good_entry_def)
  with assms(1) have "list_all good_entry (set_prop acc k w)"
    using set_set_prop_subset [of acc k w] by (auto simp: list_all_iff)
  moreover have "\<not> has_length (set_prop acc k w)"
    using assms(1,5) by (simp add: has_length_set_prop)
  ultimately show ?thesis
    using assms(1) by (simp add: t' set_prop_distinct set_prop_order)
qed

lemma settled_resize: "list_all settled_slot es \<Longrightarrow> list_all settled_slot (resize n es)"
  by (auto simp: resize_def list_all_iff settled_slot_def dest: in_set_takeD)

lemma settled_store_at:
  "list_all settled_slot es \<Longrightarrow> settled w \<Longrightarrow> list_all settled_slot (store_at i w es)"
  by (auto simp: store_at_def list_all_iff settled_slot_def
      dest!: set_update_subset_insert [THEN subsetD])

lemma named_keys_set_prop:
  assumes "named_keys (map fst qs)" and "parse_index k = None" and "k \<noteq> ''length''"
  shows "named_keys (map fst (set_prop qs k w))"
proof -
  have "set (map fst (set_prop qs k w)) = insert k (set (map fst qs))"
    using set_prop_keys [of qs k w] by simp
  with assms show ?thesis
    by (simp add: named_keys_def list_all_iff set_prop_distinct)
qed

lemma good_put_arr:
  assumes "good (Arr es qs)" and "put (Arr es qs) k w = Returns t'" and "settled w"
    and "\<And>s. w = Str s \<Longrightarrow> this_member k = None"
  shows "good t'"
proof -
  consider "k = ''__proto__''" | "k \<noteq> ''__proto__''" "k = ''length''"
    | i where "k \<noteq> ''__proto__''" "k \<noteq> ''length''" "parse_index k = Some i"
    | "k \<noteq> ''__proto__''" "k \<noteq> ''length''" "parse_index k = None"
    by (cases "parse_index k") auto
  then show ?thesis
  proof cases
    case 1
    with assms(1,2) show ?thesis by (auto split: if_splits)
  next
    case 2
    with assms(2) obtain n where "t' = Arr (resize n es) qs"
      by (auto dest!: and_then_Returns split: option.splits)
    with assms(1) show ?thesis by (simp add: settled_resize)
  next
    case 3
    with assms(2) have "t' = Arr (store_at i w es) qs" by simp
    with assms(1,3) show ?thesis by (simp add: settled_store_at)
  next
    case 4
    with assms(2) have t': "t' = Arr es (set_prop qs k w)" by simp
    have "good_entry (k, w)" using 4(1) assms(3,4) by (simp add: good_entry_def)
    with assms(1) have "list_all good_entry (set_prop qs k w)"
      using set_set_prop_subset [of qs k w] by (auto simp: list_all_iff)
    with assms(1) 4 show ?thesis by (simp add: t' named_keys_set_prop)
  qed
qed

lemma good_put:
  assumes "good t" and "put t k w = Returns t'" and "settled w"
    and "\<And>s. w = Str s \<Longrightarrow> this_member k = None"
    and "(\<exists>es qs. t = Arr es qs) \<or> (k = ''length'' \<longrightarrow> w = Undefined)"
  shows "good t'"
proof (cases t)
  case (Obj acc)
  with assms show ?thesis using good_put_obj [of acc k w t'] by auto
next
  case (Arr es qs)
  with assms show ?thesis using good_put_arr [of es qs k w t'] by auto
qed (use assms in simp_all)

lemma plain_entry_good:
  assumes "plain_entry (k, v)"
  shows "settled v" "\<And>s. v = Str s \<Longrightarrow> this_member k = None" "k \<noteq> ''length''"
  using assms by (auto simp: plain_entry_def settled_def)

lemma good_put_all:
  "good t \<Longrightarrow> list_all plain_entry es \<Longrightarrow> put_all t es = Returns t' \<Longrightarrow> good t'"
proof (induction es arbitrary: t)
  case Nil
  then show ?case by simp
next
  case (Cons e es)
  obtain k v where e: "e = (k, v)" by (cases e)
  from Cons.prems(2) have p: "plain_entry (k, v)" and rest: "list_all plain_entry es"
    by (simp_all add: e)
  from Cons.prems(3) obtain t1 where t1: "put t k v = Returns t1" and r: "put_all t1 es = Returns t'"
    by (auto simp: e dest!: and_then_Returns)
  have "good t1"
    using Cons.prems(1) t1 plain_entry_good [OF p] by (intro good_put [of t k v t1]) auto
  from Cons.IH [OF this rest r] show ?case .
qed

lemma no_length_entry:
  assumes "distinct (map fst ps)" and "\<not> has_length ps" and "(k, v) \<in> set ps" and "k = ''length''"
  shows "v = Undefined"
proof -
  from assms(1,3) have "map_of ps k = Some v" by simp
  with assms(2,4) show ?thesis by (simp add: has_length_def)
qed

lemma good_chars: "good (dense (chars s))"
  by (simp add: dense_def chars_def list_all_iff settled_slot_def settled_def named_keys_def)

lemma good_empty: "good (Obj [])" "good (Arr [] [])"
  by (simp_all add: key_order_def has_length_def named_keys_def)

lemma rebuild:
  "callable_free v \<longrightarrow> wellformed v \<longrightarrow> (\<forall>r. build v = Returns r \<longrightarrow> good r)"
  "callable_free_elems vs \<longrightarrow> wellformed_elems vs \<longrightarrow>
     (\<forall>rs. build_each vs = Returns rs \<longrightarrow> list_all rebuilt_slot rs)"
  "callable_free w \<longrightarrow> wellformed w \<longrightarrow> (\<forall>r. stored w = Returns r \<longrightarrow> settled r)"
  "callable_free_elems ws \<longrightarrow> wellformed_elems ws \<longrightarrow>
     (\<forall>rs. build_elems ws = Returns rs \<longrightarrow> list_all settled_slot rs)"
  "\<forall>r. good t \<longrightarrow> callable_free_props ps \<longrightarrow> wellformed_props ps \<longrightarrow>
       ((\<exists>es qs. t = Arr es qs) \<or> (\<forall>(k, v)\<in>set ps. k = ''length'' \<longrightarrow> v = Undefined)) \<longrightarrow>
       build_props t ps = Returns r \<longrightarrow> good r"
proof (induction v and vs and w and ws and t ps
    rule: build_build_each_stored_build_elems_build_props.induct)
  case (5 s)
  show ?case using good_chars by (simp add: build_string_def)
next
  case (6 es qs)
  show ?case
  proof (intro impI allI)
    fix r assume cf: "callable_free (Arr es qs)" and wf: "wellformed (Arr es qs)"
      and b: "build (Arr es qs) = Returns r"
    from b obtain ys where ys: "build_elems es = Returns ys"
      and bp: "build_props (Arr ys []) qs = Returns r"
      by (auto dest!: and_then_Returns)
    with "6.IH"(1) cf wf have "list_all settled_slot ys" by simp
    then have g: "good (Arr ys [])" by (simp add: named_keys_def)
    from "6.IH"(2) [of ys] g cf wf bp show "good r" by simp
  qed
next
  case (7 ps)
  show ?case
  proof (intro impI allI)
    fix r assume cf: "callable_free (Obj ps)" and wf: "wellformed (Obj ps)"
      and b: "build (Obj ps) = Returns r"
    let ?t = "if has_length ps then Arr [] [] else Obj []"
    have g: "good ?t" using good_empty by (cases "has_length ps") simp_all
    have side: "(\<exists>es qs. ?t = Arr es qs) \<or> (\<forall>(k, v)\<in>set ps. k = ''length'' \<longrightarrow> v = Undefined)"
      using wf no_length_entry [of ps] by (cases "has_length ps") auto
    from 7 g cf wf side b show "good r" by simp
  qed
next
  case (11 vs)
  then show ?case by (auto simp: rebuilt_slot_def dest!: and_then_Returns)
next
  case (12 v vs)
  then show ?case using good_rebuilt by (auto simp: rebuilt_slot_def rebuilt_def dest!: and_then_Returns)
next
  case (15 vs qs)
  show ?case
  proof (intro impI allI)
    fix r assume cf: "callable_free (Arr vs qs)" and wf: "wellformed (Arr vs qs)"
      and b: "stored (Arr vs qs) = Returns r"
    from b have m: "map_of qs ''map'' = None"
      by (auto simp: object_map_fails split: if_splits)
    with b obtain rs where rs: "build_each vs = Returns rs" "r = Arr rs []"
      by (auto dest!: and_then_Returns)
    with 15 [OF m] cf wf have "list_all rebuilt_slot rs" by simp
    then have "build_each rs = Returns (trim_built_elems rs)" by (rule build_each_rebuilt)
    then show "settled r" by (simp add: rs(2) settled_def)
  qed
next
  case (16 ps)
  show ?case
  proof (intro impI allI)
    fix r assume cf: "callable_free (Obj ps)" and wf: "wellformed (Obj ps)"
      and b: "stored (Obj ps) = Returns r"
    from b have nl: "\<not> has_length ps" and bp: "build_props (Obj []) ps = Returns r"
      by (auto simp: object_map_fails split: if_splits)
    have side: "(\<exists>es qs. Obj [] = Arr es qs) \<or> (\<forall>(k, v)\<in>set ps. k = ''length'' \<longrightarrow> v = Undefined)"
      using wf nl no_length_entry [of ps] by auto
    from 16 [OF nl] good_empty(1) cf wf side bp have gr: "good r" by simp
    from build_props_obj_shape [OF bp] obtain qs where "r = Obj qs" ..
    with gr show "settled r" using good_obj_settled by simp
  qed
next
  case (23 vs)
  then show ?case by (auto simp: settled_slot_def dest!: and_then_Returns)
next
  case (24 v vs)
  then show ?case by (auto simp: settled_slot_def dest!: and_then_Returns)
next
  case (26 newStyles key "value" ps)
  have ih3: "callable_free value \<longrightarrow> wellformed value \<longrightarrow> (\<forall>r. stored value = Returns r \<longrightarrow> settled r)"
    if "\<not> (\<exists>s. value = Str s)"
    using that "26.IH"(1-8) by (cases "value") auto
  show ?case
  proof (intro impI allI)
    fix r
    assume g: "good newStyles" and cf: "callable_free_props ((key, value) # ps)"
      and wf: "wellformed_props ((key, value) # ps)"
      and side: "(\<exists>es qs. newStyles = Arr es qs) \<or>
                 (\<forall>(k, v)\<in>set ((key, value) # ps). k = ''length'' \<longrightarrow> v = Undefined)"
      and b: "build_props newStyles ((key, value) # ps) = Returns r"
    from b obtain t' where
      step: "(case value of
          Str s \<Rightarrow>
            (case this_member key of
               Some method \<Rightarrow> and_then (method s) (assign newStyles)
             | None \<Rightarrow> put newStyles key value)
        | _ \<Rightarrow> and_then (stored value) (put newStyles key)) = Returns t'"
      and rest: "build_props t' ps = Returns r"
      by (auto dest!: and_then_Returns)
    have "good t' \<and> ((\<exists>es qs. newStyles = Arr es qs) \<longrightarrow> (\<exists>es qs. t' = Arr es qs))"
    proof (cases "\<exists>s. value = Str s")
      case True
      then obtain s where v: "value = Str s" ..
      show ?thesis
      proof (cases "this_member key")
        case None
        with step v have p: "put newStyles key (Str s) = Returns t'" by simp
        have "good t'"
          using g p None side by (intro good_put [of newStyles key "Str s" t']) (auto simp: v settled_def)
        with p show ?thesis using put_arr_shape by blast
      next
        case (Some m)
        with step v obtain r0 where r0: "m s = Returns r0" and a: "put_all newStyles (own_entries r0) = Returns t'"
          by (auto simp: assign_def dest!: and_then_Returns)
        from good_put_all [OF g member_returns [OF Some r0] a] have "good t'" .
        with a show ?thesis using put_all_arr_shape by blast
      qed
    next
      case False
      with step obtain w where w: "stored value = Returns w" and p: "put newStyles key w = Returns t'"
        by (cases "value") (auto dest!: and_then_Returns)
      from ih3 [OF False] cf wf w have sw: "settled w" by simp
      have nstr: "\<And>s. w = Str s \<Longrightarrow> this_member key = None"
        using w False stored_Str by blast
      have len: "(\<exists>es qs. newStyles = Arr es qs) \<or> (key = ''length'' \<longrightarrow> w = Undefined)"
        using side w by auto
      have "good t'" using g p sw nstr len by (rule good_put)
      with p show ?thesis using put_arr_shape by blast
    qed
    then have gt: "good t'" and keep: "(\<exists>es qs. newStyles = Arr es qs) \<longrightarrow> (\<exists>es qs. t' = Arr es qs)"
      by simp_all
    have side': "(\<exists>es qs. t' = Arr es qs) \<or> (\<forall>(k, v)\<in>set ps. k = ''length'' \<longrightarrow> v = Undefined)"
      using side keep by auto
    from "26.IH"(9) [of t'] gt cf wf side' rest show "good r" by simp
  qed
qed (simp_all add: settled_def key_order_def has_length_def named_keys_def rebuilt_slot_def
    settled_slot_def)

subsection \<open>Values without a length\<close>

lemma trim_props_id: "(trim_props ps = ps) = (\<forall>(k, v)\<in>set ps. trim_stored v = v)"
  by (induction ps) auto

lemma trim_stored_elems_id:
  "(trim_stored_elems es = es) = (\<forall>v. Some v \<in> set es \<longrightarrow> trim_stored v = v)"
proof (induction es)
  case Nil
  then show ?case by simp
next
  case (Cons x es)
  then show ?case by (cases x) auto
qed

lemma trim_stored_elems_length: "length (trim_stored_elems es) = length es"
proof (induction es)
  case Nil
  then show ?case by simp
next
  case (Cons x es)
  then show ?case by (cases x) auto
qed

lemma strip_trim_empty: "(strip (trim_stored_elems es) = []) = (strip es = [])"
proof (induction es)
  case Nil
  then show ?case by simp
next
  case (Cons x es)
  then show ?case by (cases x) auto
qed

lemma strip_trim_id:
  "(strip (trim_stored_elems es) = es) =
     (strip es = es \<and> (\<forall>v. Some v \<in> set es \<longrightarrow> trim_stored v = v))"
proof (induction es)
  case Nil
  then show ?case by simp
next
  case (Cons x es)
  then show ?case by (cases x) (auto simp: strip_trim_empty)
qed

lemma strip_store_at: "strip es = es \<Longrightarrow> strip (store_at i w es) = store_at i w es"
proof (cases "i < length es")
  case True
  assume "strip es = es"
  with True have l: "last es \<noteq> None" by (auto simp: strip_id)
  from True have "es \<noteq> []" by auto
  with True have "last (es[i := Some w]) = (if i = length es - 1 then Some w else last es)"
    by (simp add: last_conv_nth nth_list_update)
  with l True show ?thesis by (auto simp: strip_id store_at_def)
next
  case False
  then show ?thesis by (simp add: strip_id store_at_def)
qed

lemma set_store_at: "set (store_at i w es) \<subseteq> insert (Some w) (insert None (set es))"
  by (auto simp: store_at_def dest!: set_update_subset_insert [THEN subsetD])

lemma whole_put:
  assumes "trim_built t = t" and "trim_stored w = w" and "put t k w = Returns t'"
    and "(\<exists>es qs. t = Arr es qs) \<longrightarrow> k \<noteq> ''length''"
  shows "trim_built t' = t'"
proof (cases t)
  case (Obj acc)
  with assms(1) have a: "\<forall>(k, v)\<in>set acc. trim_stored v = v" by (simp add: trim_props_id)
  show ?thesis
  proof (cases "k = ''__proto__''")
    case True
    with assms(1,3) Obj show ?thesis by (auto split: if_splits)
  next
    case False
    with assms(3) Obj have t': "t' = Obj (set_prop acc k w)" by simp
    from a assms(2) have "\<forall>(k, v)\<in>set (set_prop acc k w). trim_stored v = v"
      using set_set_prop_subset [of acc k w] by auto
    then show ?thesis by (simp add: t' trim_props_id)
  qed
next
  case (Arr es qs)
  with assms(1) have e: "strip es = es" "\<forall>v. Some v \<in> set es \<longrightarrow> trim_stored v = v"
    and q: "\<forall>(k, v)\<in>set qs. trim_stored v = v"
    by (simp_all add: trim_props_id strip_trim_id)
  from assms(4) Arr have nl: "k \<noteq> ''length''" by simp
  show ?thesis
  proof (cases "k = ''__proto__''")
    case True
    with assms(1,3) Arr show ?thesis by (auto split: if_splits)
  next
    case False
    show ?thesis
    proof (cases "parse_index k")
      case None
      with False nl assms(3) Arr have t': "t' = Arr es (set_prop qs k w)" by simp
      from q assms(2) have "\<forall>(k, v)\<in>set (set_prop qs k w). trim_stored v = v"
        using set_set_prop_subset [of qs k w] by auto
      with e show ?thesis by (simp add: t' trim_props_id strip_trim_id)
    next
      case (Some i)
      with False nl assms(3) Arr have t': "t' = Arr (store_at i w es) qs" by simp
      from e(2) assms(2) have "\<forall>v. Some v \<in> set (store_at i w es) \<longrightarrow> trim_stored v = v"
        using set_store_at [of i w es] by auto
      with e(1) q show ?thesis by (simp add: t' trim_props_id strip_trim_id strip_store_at)
    qed
  qed
qed (use assms in simp_all)

lemma put_shape_back: "put t k w = Returns t' \<Longrightarrow> (\<exists>es qs. t' = Arr es qs) \<Longrightarrow> \<exists>es qs. t = Arr es qs"
  by (cases t) (auto split: if_splits)

lemma whole_put_all:
  "trim_built t = t \<Longrightarrow> list_all plain_entry es \<Longrightarrow> put_all t es = Returns t' \<Longrightarrow>
   trim_built t' = t' \<and> ((\<exists>xs qs. t' = Arr xs qs) \<longrightarrow> (\<exists>xs qs. t = Arr xs qs))"
proof (induction es arbitrary: t)
  case Nil
  then show ?case by simp
next
  case (Cons e es)
  obtain k v where e: "e = (k, v)" by (cases e)
  from Cons.prems(2) have p: "plain_entry (k, v)" and rest: "list_all plain_entry es"
    by (simp_all add: e)
  from Cons.prems(3) obtain t1 where t1: "put t k v = Returns t1" and r: "put_all t1 es = Returns t'"
    by (auto simp: e dest!: and_then_Returns)
  from p have "trim_stored v = v" "k \<noteq> ''length''" by (auto simp: plain_entry_def)
  with Cons.prems(1) t1 have "trim_built t1 = t1" by (intro whole_put [of t v k t1]) auto
  from Cons.IH [OF this rest r] put_shape_back [OF t1] show ?case by blast
qed

lemma stored_shape:
  "stored (Obj ps) = Returns r \<Longrightarrow> \<exists>qs. r = Obj qs"
  by (auto simp: object_map_fails dest: build_props_obj_shape split: if_splits)

lemma whole:
  "lengthless v \<longrightarrow> wellformed v \<longrightarrow> (\<forall>r. build v = Returns r \<longrightarrow> trim_built r = r)"
  "lengthless_elems vs \<longrightarrow> wellformed_elems vs \<longrightarrow>
     (\<forall>rs. build_each vs = Returns rs \<longrightarrow> trim_built_elems rs = rs)"
  "lengthless w \<longrightarrow> wellformed w \<longrightarrow> (\<forall>r. stored w = Returns r \<longrightarrow> trim_stored r = r)"
  "lengthless_elems ws \<longrightarrow> wellformed_elems ws \<longrightarrow>
     (\<forall>rs. build_elems ws = Returns rs \<longrightarrow> strip (trim_stored_elems rs) = rs)"
  "\<forall>r. trim_built t = t \<longrightarrow> lengthless_props ps \<longrightarrow> wellformed_props ps \<longrightarrow>
       ((\<exists>es qs. t = Arr es qs) \<longrightarrow> ''length'' \<notin> fst ` set ps) \<longrightarrow>
       build_props t ps = Returns r \<longrightarrow> trim_built r = r"
proof (induction v and vs and w and ws and t ps
    rule: build_build_each_stored_build_elems_build_props.induct)
  case (5 s)
  show ?case
    by (auto simp: build_string_def dense_def chars_def strip_trim_id strip_dense simp del: map_map)
next
  case (6 es qs)
  show ?case
  proof (intro impI allI)
    fix r assume ll: "lengthless (Arr es qs)" and wf: "wellformed (Arr es qs)"
      and b: "build (Arr es qs) = Returns r"
    from b obtain ys where ys: "build_elems es = Returns ys"
      and bp: "build_props (Arr ys []) qs = Returns r"
      by (auto dest!: and_then_Returns)
    with "6.IH"(1) ll wf have "strip (trim_stored_elems ys) = ys" by simp
    then have g: "trim_built (Arr ys []) = Arr ys []" by simp
    from wf have "''length'' \<notin> fst ` set qs" by (auto simp: named_keys_def list_all_iff)
    with "6.IH"(2) [of ys] g ll wf bp show "trim_built r = r" by simp
  qed
next
  case (7 ps)
  then show ?case by simp
next
  case (11 vs)
  then show ?case by (auto dest!: and_then_Returns)
next
  case (12 v vs)
  then show ?case by (auto dest!: and_then_Returns)
next
  case (15 vs qs)
  show ?case
  proof (intro impI allI)
    fix r assume ll: "lengthless (Arr vs qs)" and wf: "wellformed (Arr vs qs)"
      and b: "stored (Arr vs qs) = Returns r"
    from b have m: "map_of qs ''map'' = None"
      by (auto simp: object_map_fails split: if_splits)
    with b obtain rs where rs: "build_each vs = Returns rs" "r = Arr rs []"
      by (auto dest!: and_then_Returns)
    with 15 [OF m] ll wf show "trim_stored r = r" by simp
  qed
next
  case (16 ps)
  show ?case
  proof (intro impI allI)
    fix r assume ll: "lengthless (Obj ps)" and wf: "wellformed (Obj ps)"
      and b: "stored (Obj ps) = Returns r"
    from ll have nl: "\<not> has_length ps" by simp
    with b have bp: "build_props (Obj []) ps = Returns r" by simp
    from 16 [OF nl] ll wf bp have "trim_built r = r" by simp
    moreover from stored_shape [OF b] obtain qs where "r = Obj qs" ..
    ultimately show "trim_stored r = r" by simp
  qed
next
  case (23 vs)
  show ?case
  proof (intro impI allI)
    fix rs assume ll: "lengthless_elems (None # vs)" and wf: "wellformed_elems (None # vs)"
      and b: "build_elems (None # vs) = Returns rs"
    from b obtain ws where ws: "build_elems vs = Returns ws"
      and rs: "rs = (if ws = [] then [] else None # ws)"
      by (auto dest!: and_then_Returns)
    with 23 ll wf have "strip (trim_stored_elems ws) = ws" by simp
    with rs show "strip (trim_stored_elems rs) = rs" by simp
  qed
next
  case (24 v vs)
  then show ?case by (auto dest!: and_then_Returns)
next
  case (26 newStyles key "value" ps)
  have ih3: "lengthless value \<longrightarrow> wellformed value \<longrightarrow> (\<forall>r. stored value = Returns r \<longrightarrow> trim_stored r = r)"
    if "\<not> (\<exists>s. value = Str s)"
    using that "26.IH"(1-8) by (cases "value") auto
  show ?case
  proof (intro impI allI)
    fix r
    assume g: "trim_built newStyles = newStyles" and ll: "lengthless_props ((key, value) # ps)"
      and wf: "wellformed_props ((key, value) # ps)"
      and side: "(\<exists>es qs. newStyles = Arr es qs) \<longrightarrow> ''length'' \<notin> fst ` set ((key, value) # ps)"
      and b: "build_props newStyles ((key, value) # ps) = Returns r"
    from b obtain t' where
      step: "(case value of
          Str s \<Rightarrow>
            (case this_member key of
               Some method \<Rightarrow> and_then (method s) (assign newStyles)
             | None \<Rightarrow> put newStyles key value)
        | _ \<Rightarrow> and_then (stored value) (put newStyles key)) = Returns t'"
      and rest: "build_props t' ps = Returns r"
      by (auto dest!: and_then_Returns)
    from side have kl: "(\<exists>es qs. newStyles = Arr es qs) \<longrightarrow> key \<noteq> ''length''" by auto
    have "trim_built t' = t' \<and> ((\<exists>es qs. t' = Arr es qs) \<longrightarrow> (\<exists>es qs. newStyles = Arr es qs))"
    proof (cases "\<exists>s. value = Str s")
      case True
      then obtain s where v: "value = Str s" ..
      show ?thesis
      proof (cases "this_member key")
        case None
        with step v have p: "put newStyles key (Str s) = Returns t'" by simp
        have "trim_stored (Str s) = Str s" by simp
        with g have "trim_built t' = t'" using p kl by (rule whole_put)
        with p show ?thesis using put_shape_back by blast
      next
        case (Some m)
        with step v obtain r0 where r0: "m s = Returns r0" and a: "put_all newStyles (own_entries r0) = Returns t'"
          by (auto simp: assign_def dest!: and_then_Returns)
        from whole_put_all [OF g member_returns [OF Some r0] a] show ?thesis .
      qed
    next
      case False
      with step obtain w where w: "stored value = Returns w" and p: "put newStyles key w = Returns t'"
        by (cases "value") (auto dest!: and_then_Returns)
      from ih3 [OF False] ll wf w have sw: "trim_stored w = w" by simp
      have "trim_built t' = t'" using g sw p kl by (rule whole_put)
      with p show ?thesis using put_shape_back by blast
    qed
    then have gt: "trim_built t' = t'" and origin: "(\<exists>es qs. t' = Arr es qs) \<longrightarrow> (\<exists>es qs. newStyles = Arr es qs)"
      by simp_all
    have side': "(\<exists>es qs. t' = Arr es qs) \<longrightarrow> ''length'' \<notin> fst ` set ps"
      using side origin by auto
    from "26.IH"(9) [of t'] gt ll wf side' rest show "trim_built r = r" by simp
  qed
qed simp_all

subsection \<open>Only expanded values are unchanged\<close>

lemma named_put:
  "put t k w = Returns t' \<Longrightarrow> named_of t' \<subseteq> named_of t \<union> ({k} - {''__proto__''})"
  by (cases t) (auto simp: set_prop_keys split: if_splits option.splits dest!: and_then_Returns)

lemma named_put_all:
  "list_all plain_entry es \<Longrightarrow> put_all t es = Returns t' \<Longrightarrow>
   named_of t' \<subseteq> named_of t \<union> {k. this_member k = None}"
proof (induction es arbitrary: t)
  case Nil
  then show ?case by auto
next
  case (Cons e es)
  obtain k v where e: "e = (k, v)" by (cases e)
  from Cons.prems(1) have "plain_entry (k, v)" and rest: "list_all plain_entry es"
    by (simp_all add: e)
  then have p: "this_member k = None" by (simp add: plain_entry_def)
  from Cons.prems(2) obtain t1 where t1: "put t k v = Returns t1" and r: "put_all t1 es = Returns t'"
    by (auto simp: e dest!: and_then_Returns)
  from named_put [OF t1] p have "named_of t1 \<subseteq> named_of t \<union> {k. this_member k = None}" by auto
  with Cons.IH [OF rest r] show ?case by blast
qed

lemma member_key_origin:
  "build_props t ps = Returns r \<Longrightarrow> k \<in> named_of r \<Longrightarrow> this_member k \<noteq> None \<Longrightarrow>
   k \<in> named_of t \<or> (\<exists>v. (k, v) \<in> set ps \<and> k \<noteq> ''__proto__'' \<and> (\<forall>s. v \<noteq> Str s))"
proof (induction ps arbitrary: t)
  case Nil
  then show ?case by simp
next
  case (Cons e ps)
  obtain k0 v0 where e: "e = (k0, v0)" by (cases e)
  from Cons.prems(1) obtain t' where
    step: "(case v0 of
          Str s \<Rightarrow>
            (case this_member k0 of
               Some method \<Rightarrow> and_then (method s) (assign t)
             | None \<Rightarrow> put t k0 v0)
        | _ \<Rightarrow> and_then (stored v0) (put t k0)) = Returns t'"
    and rest: "build_props t' ps = Returns r"
    by (auto simp: e dest!: and_then_Returns)
  from Cons.IH [OF rest Cons.prems(2,3)]
  consider "k \<in> named_of t'" | "\<exists>v. (k, v) \<in> set ps \<and> k \<noteq> ''__proto__'' \<and> (\<forall>s. v \<noteq> Str s)"
    by blast
  then show ?case
  proof cases
    case 2
    then show ?thesis by (auto simp: e)
  next
    case 1
    show ?thesis
    proof (cases "\<exists>s. v0 = Str s")
      case True
      then obtain s where v: "v0 = Str s" ..
      show ?thesis
      proof (cases "this_member k0")
        case None
        with step v have "put t k0 (Str s) = Returns t'" by simp
        from named_put [OF this] 1 None Cons.prems(3) show ?thesis by auto
      next
        case (Some m)
        with step v obtain r0 where r0: "m s = Returns r0" and a: "put_all t (own_entries r0) = Returns t'"
          by (auto simp: assign_def dest!: and_then_Returns)
        from named_put_all [OF member_returns [OF Some r0] a] 1 Cons.prems(3) show ?thesis by auto
      qed
    next
      case False
      with step obtain w where "put t k0 w = Returns t'"
        by (cases v0) (auto dest!: and_then_Returns)
      from named_put [OF this] 1 False show ?thesis by (auto simp: e)
    qed
  qed
qed

lemma put_entry_step:
  "put_entry (k, v) \<Longrightarrow>
   (case v of
      Str s \<Rightarrow>
        (case this_member k of
           Some method \<Rightarrow> and_then (method s) (assign t)
         | None \<Rightarrow> put t k v)
    | _ \<Rightarrow> and_then (stored v) (put t k)) = and_then (stored v) (put t k)"
  by (cases v) (simp_all add: put_entry_def)

lemma puts_obj:
  "distinct (map fst (acc @ ps)) \<Longrightarrow> key_order (map fst (acc @ ps)) \<Longrightarrow> list_all put_entry ps \<Longrightarrow>
   build_props (Obj acc) ps = Returns r \<Longrightarrow>
   \<exists>ws. r = Obj (acc @ zip (map fst ps) ws) \<and> length ws = length ps \<and>
     (\<forall>i<length ps. stored (snd (ps ! i)) = Returns (ws ! i))"
proof (induction ps arbitrary: acc)
  case Nil
  then show ?case by simp
next
  case (Cons e ps)
  obtain k v where e: "e = (k, v)" by (cases e)
  from Cons.prems(3) have pe: "put_entry (k, v)" and rest: "list_all put_entry ps"
    by (simp_all add: e)
  from pe have np: "k \<noteq> ''__proto__''" by (simp add: put_entry_def)
  from Cons.prems(4) obtain w t' where w: "stored v = Returns w" and p: "put (Obj acc) k w = Returns t'"
    and b: "build_props t' ps = Returns r"
    by (auto simp: e put_entry_step [OF pe] simp del: put.simps dest!: and_then_Returns)
  have fresh: "k \<notin> fst ` set acc" using Cons.prems(1) by (auto simp: e)
  have "key_order (map fst (acc @ [(k, w)]))"
    using Cons.prems(2) by (simp add: e key_order_def sorted_wrt_append)
  then have "set_prop acc k w = acc @ [(k, w)]" using fresh by (rule set_prop_last)
  with p np have t': "t' = Obj (acc @ [(k, w)])" by simp
  have "\<exists>ws. r = Obj ((acc @ [(k, w)]) @ zip (map fst ps) ws) \<and> length ws = length ps \<and>
     (\<forall>i<length ps. stored (snd (ps ! i)) = Returns (ws ! i))"
    using Cons.prems(1,2) rest b [unfolded t'] by (intro Cons.IH) (simp_all add: e)
  then obtain ws where ws: "r = Obj ((acc @ [(k, w)]) @ zip (map fst ps) ws)" "length ws = length ps"
    "\<forall>i<length ps. stored (snd (ps ! i)) = Returns (ws ! i)" by blast
  have "r = Obj (acc @ zip (map fst (e # ps)) (w # ws))" using ws(1) by (simp add: e)
  moreover have "length (w # ws) = length (e # ps)" using ws(2) by simp
  moreover have "\<forall>i<length (e # ps). stored (snd ((e # ps) ! i)) = Returns ((w # ws) ! i)"
    using w ws(3) by (auto simp: e nth_Cons split: nat.splits)
  ultimately show ?case by blast
qed

lemma puts_arr:
  "named_keys (map fst (acc @ qs)) \<Longrightarrow> list_all put_entry qs \<Longrightarrow>
   build_props (Arr zs acc) qs = Returns r \<Longrightarrow>
   \<exists>ws. r = Arr zs (acc @ zip (map fst qs) ws) \<and> length ws = length qs \<and>
     (\<forall>i<length qs. stored (snd (qs ! i)) = Returns (ws ! i))"
proof (induction qs arbitrary: acc)
  case Nil
  then show ?case by simp
next
  case (Cons e qs)
  obtain k v where e: "e = (k, v)" by (cases e)
  from Cons.prems(2) have pe: "put_entry (k, v)" and rest: "list_all put_entry qs"
    by (simp_all add: e)
  from pe have np: "k \<noteq> ''__proto__''" by (simp add: put_entry_def)
  from Cons.prems(3) obtain w t' where w: "stored v = Returns w" and p: "put (Arr zs acc) k w = Returns t'"
    and b: "build_props t' qs = Returns r"
    by (auto simp: e put_entry_step [OF pe] simp del: put.simps dest!: and_then_Returns)
  from named_keys_append [OF Cons.prems(1) [unfolded e], of w]
  have fresh: "k \<notin> fst ` set acc" and named: "parse_index k = None" and nl: "k \<noteq> ''length''"
    and nk: "named_keys (map fst ((acc @ [(k, w)]) @ qs))"
    by simp_all
  from p np nl named fresh have t': "t' = Arr zs (acc @ [(k, w)])" by (simp add: set_prop_def)
  from Cons.IH [OF nk rest b [unfolded t']]
  obtain ws where ws: "r = Arr zs ((acc @ [(k, w)]) @ zip (map fst qs) ws)" "length ws = length qs"
    "\<forall>i<length qs. stored (snd (qs ! i)) = Returns (ws ! i)" by blast
  have "r = Arr zs (acc @ zip (map fst (e # qs)) (w # ws))" using ws(1) by (simp add: e)
  moreover have "length (w # ws) = length (e # qs)" using ws(2) by simp
  moreover have "\<forall>i<length (e # qs). stored (snd ((e # qs) ! i)) = Returns ((w # ws) ! i)"
    using w ws(3) by (auto simp: e nth_Cons split: nat.splits)
  ultimately show ?case by blast
qed

lemma zip_keys_same:
  assumes "zip (map fst ps) ws = ps" and "length ws = length ps"
  shows "ws = map snd ps"
proof -
  have "map snd (zip (map fst ps) ws) = ws" using assms(2) by simp
  with assms(1) show ?thesis by simp
qed

lemma no_member_strings:
  assumes "build_props t ps = Returns r" and "named_of r = fst ` set ps" and "named_of t = {}"
    and "distinct (map fst ps)"
  shows "list_all put_entry ps"
proof -
  have "put_entry (k, v)" if kv: "(k, v) \<in> set ps" for k v
  proof (rule ccontr)
    assume "\<not> put_entry (k, v)"
    then have bad: "k = ''__proto__'' \<or> (\<exists>s. v = Str s \<and> this_member k \<noteq> None)"
      by (auto simp: put_entry_def)
    then have m: "this_member k \<noteq> None" using this_member_proto by auto
    from kv assms(2) have "k \<in> named_of r" by force
    from member_key_origin [OF assms(1) this m] assms(3)
    obtain v' where v': "(k, v') \<in> set ps" "k \<noteq> ''__proto__''" "\<forall>s. v' \<noteq> Str s" by auto
    from assms(4) kv v'(1) have "v' = v" by (meson eq_key_imp_eq_value)
    with bad v' show False by auto
  qed
  then show ?thesis by (auto simp: list_all_iff)
qed

lemma copied_propsI:
  assumes "list_all put_entry ps"
    and "\<And>k v. (k, v) \<in> set ps \<Longrightarrow> \<not> (\<exists>s. v = Str s) \<Longrightarrow> copied v"
  shows "copied_props ps"
  using assms
proof (induction ps)
  case Nil
  then show ?case by simp
next
  case (Cons e ps)
  obtain k v where e: "e = (k, v)" by (cases e)
  from Cons.prems(1) have pe: "put_entry (k, v)" and rest: "list_all put_entry ps"
    by (simp_all add: e)
  have "copied_props ps" using rest Cons.prems(2) by (intro Cons.IH) auto
  moreover have "case v of Str s \<Rightarrow> this_member k = None | _ \<Rightarrow> copied v"
  proof (cases "\<exists>s. v = Str s")
    case True
    with pe show ?thesis by (auto simp: put_entry_def)
  next
    case False
    with Cons.prems(2) [of k v] have "copied v" by (simp add: e)
    with False show ?thesis by (cases v) simp_all
  qed
  ultimately show ?case using pe by (simp add: e put_entry_def)
qed

lemma unchanged_props_obj:
  assumes "build_props (Obj []) ps = Returns (Obj ps)"
    and "distinct (map fst ps)" and "key_order (map fst ps)"
    and "\<And>k v. (k, v) \<in> set ps \<Longrightarrow> \<not> (\<exists>s. v = Str s) \<Longrightarrow> stored v = Returns v \<Longrightarrow> copied v"
  shows "copied_props ps"
proof -
  have pe: "list_all put_entry ps"
    using assms(1) _ _ assms(2) by (rule no_member_strings) simp_all
  from puts_obj [of "[]" ps, OF _ _ pe assms(1)] assms(2,3)
  obtain ws where ws: "Obj ps = Obj (zip (map fst ps) ws)" "length ws = length ps"
    "\<forall>i<length ps. stored (snd (ps ! i)) = Returns (ws ! i)" by auto
  from ws(1,2) have "ws = map snd ps" by (intro zip_keys_same) simp_all
  with ws(3) have fixed: "\<forall>i<length ps. stored (snd (ps ! i)) = Returns (snd (ps ! i))" by simp
  show ?thesis
  proof (rule copied_propsI [OF pe])
    fix k v assume kv: "(k, v) \<in> set ps" and ns: "\<not> (\<exists>s. v = Str s)"
    from kv obtain i where "i < length ps" "ps ! i = (k, v)" by (auto simp: in_set_conv_nth)
    with fixed have "stored v = Returns v" by force
    with kv ns show "copied v" by (rule assms(4))
  qed
qed

lemma unchanged_props_arr:
  assumes "build_props (Arr ys []) qs = Returns (Arr es qs)"
    and "named_keys (map fst qs)"
    and "\<And>k v. (k, v) \<in> set qs \<Longrightarrow> \<not> (\<exists>s. v = Str s) \<Longrightarrow> stored v = Returns v \<Longrightarrow> copied v"
  shows "ys = es \<and> copied_props qs"
proof -
  from assms(2) have d: "distinct (map fst qs)" by (simp add: named_keys_def)
  have pe: "list_all put_entry qs"
    using assms(1) _ _ d by (rule no_member_strings) simp_all
  from puts_arr [of "[]" qs ys, OF _ pe assms(1)] assms(2)
  obtain ws where ws: "Arr es qs = Arr ys (zip (map fst qs) ws)" "length ws = length qs"
    "\<forall>i<length qs. stored (snd (qs ! i)) = Returns (ws ! i)" by auto
  from ws(1,2) have "ws = map snd qs" by (intro zip_keys_same) simp_all
  with ws(3) have fixed: "\<forall>i<length qs. stored (snd (qs ! i)) = Returns (snd (qs ! i))" by simp
  have "copied_props qs"
  proof (rule copied_propsI [OF pe])
    fix k v assume kv: "(k, v) \<in> set qs" and ns: "\<not> (\<exists>s. v = Str s)"
    from kv obtain i where "i < length qs" "qs ! i = (k, v)" by (auto simp: in_set_conv_nth)
    with fixed have "stored v = Returns v" by force
    with kv ns show "copied v" by (rule assms(3))
  qed
  with ws(1) show ?thesis by simp
qed

lemma strip_full: "length (strip es) = length es \<Longrightarrow> strip es = es"
proof (induction es)
  case Nil
  then show ?case by simp
next
  case (Cons x es)
  from strip_length [of es] Cons show ?case by (cases x) (auto split: if_splits)
qed

lemma build_elems_same:
  assumes "build_elems es = Returns es"
  shows "strip es = es" and "\<And>v. Some v \<in> set es \<Longrightarrow> stored v = Returns v"
proof -
  from build_elems_shape [OF assms] have len: "length es = length (strip es)"
    and each: "\<forall>i<length es. (es ! i = None \<and> es ! i = None) \<or>
      (\<exists>e w. es ! i = Some e \<and> stored e = Returns w \<and> es ! i = Some w)"
    by simp_all
  from len show "strip es = es" by (intro strip_full) simp
  fix v assume "Some v \<in> set es"
  then obtain i where "i < length es" "es ! i = Some v" by (auto simp: in_set_conv_nth)
  with each show "stored v = Returns v" by force
qed

lemma build_each_same:
  "build_each es = Returns es \<Longrightarrow> Some v \<in> set es \<Longrightarrow> build v = Returns v"
proof (induction es)
  case Nil
  then show ?case by simp
next
  case (Cons x es)
  then show ?case by (cases x) (auto dest!: and_then_Returns)
qed

lemma copied_elemsI: "(\<And>v. Some v \<in> set es \<Longrightarrow> copied v) \<Longrightarrow> copied_elems es"
proof (induction es)
  case Nil
  then show ?case by simp
next
  case (Cons x es)
  then show ?case by (cases x) auto
qed

lemma expanded_elemsI: "(\<And>v. Some v \<in> set es \<Longrightarrow> expanded v) \<Longrightarrow> expanded_elems es"
proof (induction es)
  case Nil
  then show ?case by simp
next
  case (Cons x es)
  then show ?case by (cases x) auto
qed

lemma wrapped_differs: "Wrapped f \<noteq> f"
  by (induction f) auto

lemma unchanged_expanded:
  fixes t :: jsval
  shows "wellformed v \<longrightarrow> build v = Returns v \<longrightarrow> expanded v"
    and "wellformed_elems vs \<longrightarrow> (\<forall>v. Some v \<in> set vs \<longrightarrow> build v = Returns v \<longrightarrow> expanded v)"
    and "wellformed w \<longrightarrow> stored w = Returns w \<longrightarrow> copied w"
    and "wellformed_elems ws \<longrightarrow> (\<forall>v. Some v \<in> set ws \<longrightarrow> stored v = Returns v \<longrightarrow> copied v)"
    and "wellformed_props ps \<longrightarrow>
     (\<forall>(k, v)\<in>set ps. \<not> (\<exists>s. v = Str s) \<longrightarrow> stored v = Returns v \<longrightarrow> copied v)"
proof (induction v and vs and w and ws and t ps
    rule: build_build_each_stored_build_elems_build_props.induct)
  case (5 s)
  show ?case by (simp add: build_string_def dense_def)
next
  case (6 es qs)
  show ?case
  proof (intro impI)
    assume wf: "wellformed (Arr es qs)" and b: "build (Arr es qs) = Returns (Arr es qs)"
    from b obtain ys where ys: "build_elems es = Returns ys"
      and bp: "build_props (Arr ys []) qs = Returns (Arr es qs)"
      by (auto dest!: and_then_Returns)
    have "ys = es \<and> copied_props qs"
    proof (rule unchanged_props_arr [OF bp])
      show "named_keys (map fst qs)" using wf by simp
      fix k v assume "(k, v) \<in> set qs" "\<not> (\<exists>s. v = Str s)" "stored v = Returns v"
      with "6.IH"(2) wf show "copied v" by auto
    qed
    then have same: "build_elems es = Returns es" and q: "copied_props qs" using ys by simp_all
    from build_elems_same [OF same] "6.IH"(1) wf have "strip es = es" "copied_elems es"
      by (auto intro!: copied_elemsI)
    with q show "expanded (Arr es qs)" by simp
  qed
next
  case (7 ps)
  show ?case
  proof (intro impI)
    assume wf: "wellformed (Obj ps)" and b: "build (Obj ps) = Returns (Obj ps)"
    have nl: "\<not> has_length ps"
    proof
      assume "has_length ps"
      with b have "build_props (Arr [] []) ps = Returns (Obj ps)" by simp
      from build_props_arr_shape [OF this] show False by simp
    qed
    with b have bp: "build_props (Obj []) ps = Returns (Obj ps)" by simp
    have "copied_props ps"
    proof (rule unchanged_props_obj [OF bp])
      show "distinct (map fst ps)" "key_order (map fst ps)" using wf by simp_all
      fix k v assume "(k, v) \<in> set ps" "\<not> (\<exists>s. v = Str s)" "stored v = Returns v"
      with 7 wf nl show "copied v" by auto
    qed
    with nl show "expanded (Obj ps)" by simp
  qed
next
  case (15 vs qs)
  show ?case
  proof (intro impI)
    assume wf: "wellformed (Arr vs qs)" and b: "stored (Arr vs qs) = Returns (Arr vs qs)"
    from b have m: "map_of qs ''map'' = None"
      by (auto simp: object_map_fails split: if_splits)
    with b have q: "qs = []" and same: "build_each vs = Returns vs"
      by (auto dest!: and_then_Returns)
    from 15 [OF m] wf build_each_same [OF same] have "expanded_elems vs"
      by (auto intro!: expanded_elemsI)
    with q show "copied (Arr vs qs)" by simp
  qed
next
  case (16 ps)
  show ?case
  proof (intro impI)
    assume wf: "wellformed (Obj ps)" and b: "stored (Obj ps) = Returns (Obj ps)"
    from b have nl: "\<not> has_length ps" and bp: "build_props (Obj []) ps = Returns (Obj ps)"
      by (auto simp: object_map_fails split: if_splits)
    have "copied_props ps"
    proof (rule unchanged_props_obj [OF bp])
      show "distinct (map fst ps)" "key_order (map fst ps)" using wf by simp_all
      fix k v assume "(k, v) \<in> set ps" "\<not> (\<exists>s. v = Str s)" "stored v = Returns v"
      with 16 [OF nl] wf show "copied v" by auto
    qed
    with nl show "copied (Obj ps)" by simp
  qed
next
  case (18 f)
  show ?case using wrapped_differs [of "Wrapped f"] by simp
next
  case (26 newStyles key "value" ps)
  have ih3: "wellformed value \<longrightarrow> stored value = Returns value \<longrightarrow> copied value"
    if "\<not> (\<exists>s. value = Str s)"
    using that "26.IH"(1-8) by (cases "value") auto
  from "26.IH"(9) ih3 show ?case by auto
qed auto

lemma expanded_iff: "wellformed v \<Longrightarrow> (build v = Returns v) = expanded v"
  using unchanged_expanded(1) [of v] expanded_unchanged [of v] by blast

subsection \<open>Building twice\<close>

text \<open>
  C9, as the code has it. \<open>build\<close> returns a well-formed expanded value unchanged, a
  mapping in particular. For every well-formed value \<open>v\<close> that holds no function and no
  object or array under a key \<open>__proto__\<close>: \<open>build\<close> returns \<open>v\<close> unchanged only if \<open>v\<close>
  is expanded; and if \<open>build v\<close> returns \<open>r\<close>, then \<open>build r\<close>
  returns \<open>r\<close> without the holes at the end of the arrays that \<open>build\<close> walks over. So
  \<open>build r\<close> returns \<open>r\<close> exactly when \<open>r\<close> has no such hole, and it has none when no
  mapping in \<open>v\<close> has a \<open>length\<close>. Wrapping a callable twice behaves as wrapping it once
  and dropping those holes from the result, whenever the callable returns such a value
  \<open>v\<close>; it behaves as wrapping it once when no mapping in \<open>v\<close> has a \<open>length\<close>.
\<close>

theorem build_fixes_expanded:
  "(wellformed v \<and> expanded v \<longrightarrow> build v = Returns v) \<and>
   (callable_free v \<and> wellformed v \<and> proto_safe v \<and> build v = Returns v \<longrightarrow> expanded v) \<and>
   (callable_free v \<and> wellformed v \<and> proto_safe v \<and> build v = Returns r \<longrightarrow>
      build r = Returns (trim_built r) \<and>
      (build r = Returns r) = (trim_built r = r) \<and>
      (lengthless v \<longrightarrow> build r = Returns r)) \<and>
   (call env f args = Returns x \<and> callable_free x \<and> wellformed x \<and> proto_safe x \<longrightarrow>
      call env (Wrapped (Wrapped f)) args =
        and_then (call env (Wrapped f) args) (\<lambda>r. Returns (trim_built r)) \<and>
      (lengthless x \<longrightarrow> call env (Wrapped (Wrapped f)) args = call env (Wrapped f) args))"
proof (intro conjI impI)
  assume "wellformed v \<and> expanded v"
  then show "build v = Returns v"
    using expanded_unchanged by blast
next
  assume "callable_free v \<and> wellformed v \<and> proto_safe v \<and> build v = Returns v"
  then show "expanded v" using unchanged_expanded(1) [of v] by blast
next
  assume a: "callable_free v \<and> wellformed v \<and> proto_safe v \<and> build v = Returns r"
  then have "good r" using rebuild(1) [of v] by blast
  then show "build r = Returns (trim_built r)" by (rule good_rebuilt)
  then show "(build r = Returns r) = (trim_built r = r)" by auto
  assume "lengthless v"
  with a have "trim_built r = r" using whole(1) [of v] by blast
  with \<open>build r = Returns (trim_built r)\<close> show "build r = Returns r" by simp
next
  assume a: "call env f args = Returns x \<and> callable_free x \<and> wellformed x \<and> proto_safe x"
  have twice: "and_then (build x) build = and_then (build x) (\<lambda>r. Returns (trim_built r))"
  proof (cases "build x")
    case (Returns r)
    with a rebuild(1) [of x] have "good r" by blast
    from good_rebuilt [OF this] Returns show ?thesis by simp
  qed simp_all
  with a show "call env (Wrapped (Wrapped f)) args =
        and_then (call env (Wrapped f) args) (\<lambda>r. Returns (trim_built r))" by simp
  assume l: "lengthless x"
  have "and_then (build x) (\<lambda>r. Returns (trim_built r)) = build x"
  proof (cases "build x")
    case (Returns r)
    with a l whole(1) [of x] have "trim_built r = r" by blast
    with Returns show ?thesis by simp
  qed simp_all
  with twice a show "call env (Wrapped (Wrapped f)) args = call env (Wrapped f) args" by simp
qed

theorem build_fixes_expanded_witness:
  "build (Obj [(''marginTop'', Str ''1px''), (''opacity'', Num 1),
               (''hover'', Obj [(''color'', Str ''red'')]),
               (''transform'', Arr [Some (Obj [(''scale'', Num 2)])] [])]) =
     Returns (Obj [(''marginTop'', Str ''1px''), (''opacity'', Num 1),
                   (''hover'', Obj [(''color'', Str ''red'')]),
                   (''transform'', Arr [Some (Obj [(''scale'', Num 2)])] [])]) \<and>
   build (Arr [Some (Str ''a''), None] []) = Returns (Arr [Some (Str ''a'')] []) \<and>
   build (Arr [Some (Str ''a'')] []) = Returns (Arr [Some (Str ''a'')] []) \<and>
   build (Obj [(''length'', Num 2)]) = Returns (Arr [None, None] []) \<and>
   build (Arr [None, None] []) = Returns (Arr [] [])"
proof -
  let ?m = "[(''marginTop'', Str ''1px''), (''opacity'', Num 1),
             (''hover'', Obj [(''color'', Str ''red'')]),
             (''transform'', Arr [Some (Obj [(''scale'', Num 2)])] [])]"
  have named: "parse_index ''marginTop'' = None" "parse_index ''opacity'' = None"
    "parse_index ''hover'' = None" "parse_index ''color'' = None"
    "parse_index ''transform'' = None" "parse_index ''scale'' = None"
    by (rule parse_index_nondigit, simp add: is_digit_def)+
  have free: "this_member ''marginTop'' = None" "this_member ''color'' = None"
    by (simp_all add: this_member_None member_names)
  have "wellformed (Obj ?m)"
    by (simp add: key_order_def key_le_def named named_keys_def)
  moreover have "expanded (Obj ?m)"
    by (simp add: has_length_def free)
  ultimately have one: "build (Obj ?m) = Returns (Obj ?m)"
    using build_fixes_expanded [where v = "Obj ?m"] by blast
  let ?v = "Arr [Some (Str ''a''), None] []"
  let ?r = "Arr [Some (Str ''a'')] []"
  have b: "build ?v = Returns ?r" by simp
  have "callable_free ?v \<and> wellformed ?v \<and> proto_safe ?v \<and> lengthless ?v"
    by (simp add: named_keys_def)
  with b build_fixes_expanded [where v = ?v and r = ?r]
  have two: "build ?r = Returns ?r" by blast
  let ?l = "Obj [(''length'', Num 2)]"
  let ?h = "Arr [None, None] []"
  have c: "build ?l = Returns ?h"
    by (simp add: has_length_def as_length_def resize_def numeral_2_eq_2)
  have "callable_free ?l \<and> wellformed ?l \<and> proto_safe ?l"
    by (simp add: key_order_def)
  with c build_fixes_expanded [where v = ?l and r = ?h]
  have "build ?h = Returns (trim_built ?h)" by blast
  then have three: "build ?h = Returns (Arr [] [])" by simp
  from one b two c three show ?thesis by simp
qed

text \<open>
  Neither of the first two mappings has a shorthand key that holds a string, and
  \<open>build\<close> changes both: the string inside the nested array becomes the array of its
  characters, and the function is replaced by the arrow function around it. The third
  mapping is built into an array of two holes, and that array into the empty array.
\<close>

theorem nested_array_counterexample:
  "build (Obj [(''a'', Arr [Some (Str ''xy'')] [])]) =
     Returns (Obj [(''a'', Arr [Some (Arr [Some (Str ''x''), Some (Str ''y'')] [])] [])]) \<and>
   build (Obj [(''f'', Fn 0)]) = Returns (Obj [(''f'', Wrapped (Fn 0))]) \<and>
   build (Obj [(''length'', Num 2)]) = Returns (Arr [None, None] []) \<and>
   build (Arr [None, None] []) = Returns (Arr [] [])"
  by (simp add: has_length_def build_string_def dense_def chars_def set_prop_empty as_length_def
      resize_def numeral_2_eq_2)

end
